theory Spec2Isabelle
  imports Complex_Main "HOL-Library.Word" "HOL-Library.Product_Lexorder" "HOL-Library.Multiset"
begin

section \<open>All-Colors: the growth engine of \<^verbatim>\<open>src/main.cpp\<close>\<close>

text \<open>
  The program paints every colour of a fixed palette onto a canvas, one colour per
  iteration, at the open border position whose already painted neighbours are closest in
  colour. This theory embeds the functions of \<^verbatim>\<open>main.cpp\<close> that take part in that
  (\<^verbatim>\<open>GetFreeNeighbours\<close>, \<^verbatim>\<open>bgr2hsv\<close>, \<^verbatim>\<open>ColorDiff\<close>, \<^verbatim>\<open>ColorPosDiff\<close>,
  \<^verbatim>\<open>FindBestPos\<close>, \<^verbatim>\<open>NonBlackPositions\<close>, \<^verbatim>\<open>Init\<close> and the body of \<^verbatim>\<open>main\<close>) and
  proves properties of them.

  Conventions of the embedding:
  \<^item> \<^verbatim>\<open>Channel\<close> (\<^verbatim>\<open>unsigned char\<close>) is an 8-bit word, \<^verbatim>\<open>PosComponent\<close> and the other
    \<^verbatim>\<open>int\<close>s are \<open>int\<close> (every value stays far below the 32-bit limits);
  \<^item> \<^verbatim>\<open>double\<close> is modelled by \<open>real\<close>: arithmetic is exact, rounding is not modelled;
  \<^item> \<^verbatim>\<open>std::set<Pos>\<close> is a \<open>Pos set\<close>, iterated in the lexicographic order of pairs
    (\<open>sorted_list_of_set\<close>), which is the order of \<^verbatim>\<open>std::pair\<close>'s \<^verbatim>\<open><\<close>;
  \<^item> the source's variable \<^verbatim>\<open>image\<close> is written \<open>img\<close> (\<open>image\<close> is a constant of HOL);
  \<^item> the standard library's \<^verbatim>\<open>std::mt19937\<close>, \<^verbatim>\<open>std::shuffle\<close> and \<^verbatim>\<open>std::sort\<close> are not
    code of the program; they are parameters of the model (see below).
\<close>

subsection \<open>Colours, positions and images\<close>

type_synonym Channel = "8 word"
type_synonym PosComponent = int
type_synonym ColorDouble = "real \<times> real \<times> real"
type_synonym Pos = "PosComponent \<times> PosComponent"

text \<open>\<^verbatim>\<open>Vec<Channel, 3>\<close>: the channels in the order blue, green, red.\<close>

datatype Color = Color (ch0: Channel) (ch1: Channel) (ch2: Channel)

definition invalidColor :: Channel where
  "invalidColor = 0"

text \<open>
  \<^verbatim>\<open>cv::Mat\<close> of type \<^verbatim>\<open>CV_8UC3\<close>: its two dimensions and its pixels, addressed by row and
  column as \<^verbatim>\<open>image.at<Color>(y, x)\<close> does.
\<close>

record Mat =
  cols :: int
  rows :: int
  pixels :: "int \<Rightarrow> int \<Rightarrow> Color"

text \<open>
  \<^verbatim>\<open>Mat(rows, cols, ImageType, Scalar_<Channel>(invalidColor))\<close>: a scalar built from one
  value has its other components zero, so every channel of every pixel is 0: the pixel
  \<open>sentinel\<close> of an unset cell.
\<close>

definition sentinel :: Color where
  "sentinel = Color invalidColor 0 0"

definition blank :: "int \<Rightarrow> int \<Rightarrow> Mat" where
  "blank r c = \<lparr>cols = c, rows = r, pixels = (\<lambda>y x. sentinel)\<rparr>"

datatype error = OutOfBounds | InvalidIterator | HueAssertion | MemberAssertion

definition inside :: "Mat \<Rightarrow> PosComponent \<Rightarrow> PosComponent \<Rightarrow> bool" where
  "inside img x y = (\<not> (x < 0 \<or> x \<ge> cols img \<or> y < 0 \<or> y \<ge> rows img))"

text \<open>
  \<^verbatim>\<open>SetPixel\<close> writes through \<^verbatim>\<open>Mat::at\<close>, which does not check its indices: a write
  outside the matrix is undefined behaviour, modelled as the error \<open>OutOfBounds\<close>.
\<close>

definition SetPixel :: "Mat \<Rightarrow> PosComponent \<Rightarrow> PosComponent \<Rightarrow> Color \<Rightarrow> error + Mat" where
  "SetPixel img x y color =
     (if inside img x y
      then Inr (img\<lparr>pixels := (pixels img)(y := (pixels img y)(x := color))\<rparr>)
      else Inl OutOfBounds)"

text \<open>
  \<^verbatim>\<open>GetPixel\<close> reads through \<^verbatim>\<open>Mat::at\<close>. Both of its callers test the bounds first, so
  the model reads the pixel function as it is.
\<close>

definition GetPixel :: "Mat \<Rightarrow> PosComponent \<Rightarrow> PosComponent \<Rightarrow> Color" where
  "GetPixel img x y = pixels img y x"

definition spread :: PosComponent where
  "spread = 1"

subsection \<open>The palette\<close>

text \<open>
  The three nested loops of \<^verbatim>\<open>main\<close> with \<^verbatim>\<open>colValues = 64\<close> and \<^verbatim>\<open>colMult = 4\<close>. The
  arguments of \<^verbatim>\<open>Color(...)\<close> are \<^verbatim>\<open>int\<close>s, converted to \<^verbatim>\<open>unsigned char\<close>; \<^verbatim>\<open>/\<close> is the
  integer division of non-negative values.
\<close>

definition colValues :: int where
  "colValues = 64"

definition colMult :: int where
  "colMult = 4"

definition mkColor :: "int \<Rightarrow> int \<Rightarrow> int \<Rightarrow> Color" where
  "mkColor b g r =
     Color (word_of_int (colMult * b)) (word_of_int (colMult * g div 2))
       (word_of_int (colMult * r div 2))"

definition generated_colors :: "Color list" where
  "generated_colors =
     concat (map (\<lambda>b.
       concat (map (\<lambda>g.
         map (\<lambda>r. mkColor b g r) [1..2 * colValues - 1])
       [1..2 * colValues - 1]))
     [1..colValues - 1])"


subsection \<open>Standard library: generator, shuffle and sort\<close>

text \<open>
  \<^verbatim>\<open>std::mt19937\<close> and \<^verbatim>\<open>std::shuffle\<close> are library code. \<^verbatim>\<open>std::shuffle\<close> moves the
  elements of a range by their indices and never looks at their values, so what it does
  to a range is determined by the generator's state and the range's length. The model
  takes that as a parameter \<open>draw\<close>: \<open>draw g n\<close> is the list of source indices of the
  shuffled range of length \<open>n\<close> (position \<open>k\<close> of the result holds element
  \<open>fst (draw g n) ! k\<close> of the input), and the generator state that the call leaves.
\<close>

type_synonym 'g draw = "'g \<Rightarrow> nat \<Rightarrow> nat list \<times> 'g"

definition shuffle :: "'g draw \<Rightarrow> 'a list \<Rightarrow> 'g \<Rightarrow> 'a list \<times> 'g" where
  "shuffle draw xs g =
     (map (\<lambda>i. xs ! i) (fst (draw g (length xs))), snd (draw g (length xs)))"

text \<open>What the library promises of a shuffle: the result is a permutation.\<close>

definition permuting :: "'g draw \<Rightarrow> bool" where
  "permuting draw = (\<forall>g n. mset (fst (draw g n)) = mset [0..<n])"

text \<open>
  \<^verbatim>\<open>std::sort\<close> is library code as well, a parameter \<open>srt\<close> that takes the comparison and
  the sequence. What the library promises of it, for a comparison that is a strict weak
  order: the result is a permutation of the input in which no element is smaller than
  one before it. The standard leaves the order of equivalent elements open.
\<close>

type_synonym 'a sorter = "('a \<Rightarrow> 'a \<Rightarrow> bool) \<Rightarrow> 'a list \<Rightarrow> 'a list"

definition sorts_by :: "('a \<Rightarrow> 'a \<Rightarrow> bool) \<Rightarrow> 'a sorter \<Rightarrow> bool" where
  "sorts_by cmp srt =
     (\<forall>xs. mset (srt cmp xs) = mset xs \<and> sorted_wrt (\<lambda>a b. \<not> cmp b a) (srt cmp xs))"

text \<open>
  \<^verbatim>\<open>std::min_element\<close>: the first element that no other element is smaller than; the end
  iterator (\<open>None\<close>) for an empty range.
\<close>

fun min_element :: "('a \<Rightarrow> 'a \<Rightarrow> bool) \<Rightarrow> 'a list \<Rightarrow> 'a option" where
  "min_element cmp [] = None"
| "min_element cmp (x # xs) =
     Some (foldl (\<lambda>smallest y. if cmp y smallest then y else smallest) x xs)"

subsection \<open>Neighbours\<close>

text \<open>
  The two nested loops over \<^verbatim>\<open>nx\<close> and \<^verbatim>\<open>ny\<close>, which \<^verbatim>\<open>GetFreeNeighbours\<close> and
  \<^verbatim>\<open>ColorPosDiff\<close> both run: the block around a position, the position itself included,
  in the order the loops visit it.
\<close>

definition block :: "Pos \<Rightarrow> Pos list" where
  "block pos =
     (let x = fst pos; y = snd pos in
      concat (map (\<lambda>nx. map (\<lambda>ny. (nx, ny)) [y - spread..y + spread]) [x - spread..x + spread]))"

definition GetFreeNeighbours :: "Mat \<Rightarrow> Pos \<Rightarrow> Pos set" where
  "GetFreeNeighbours img pos =
     (let neighbours = block pos in
      set (filter (\<lambda>pos.
        let x = fst pos; y = snd pos in
        if x < 0 \<or> x \<ge> cols img \<or> y < 0 \<or> y \<ge> rows img then False
        else ch0 (GetPixel img x y) = invalidColor) neighbours))"

subsection \<open>Hue\<close>

definition min3 :: "'a::linorder \<Rightarrow> 'a \<Rightarrow> 'a \<Rightarrow> 'a" where
  "min3 a b c = min (min a b) c"

definition max3 :: "'a::linorder \<Rightarrow> 'a \<Rightarrow> 'a \<Rightarrow> 'a" where
  "max3 a b c = max (max a b) c"

text \<open>
  \<^verbatim>\<open>bgr2hsv\<close>. Its last branch is \<^verbatim>\<open>assert(false)\<close>, the error \<open>HueAssertion\<close> here.
\<close>

definition bgr2hsv :: "Color \<Rightarrow> error + ColorDouble" where
  "bgr2hsv bgr =
     (let bc = ch0 bgr; gc = ch1 bgr; rc = ch2 bgr;
          b = real (unat bc) / 255;
          g = real (unat gc) / 255;
          r = real (unat rc) / 255;
          maxc = max3 rc gc bc;
          v = max3 r g b;
          s = (if v = 0 then 0 else (v - min3 r g b) / v);
          divisor = v - min3 r g b;
          wrap = (\<lambda>h. if h < 0 then h + 360 else h)
      in if divisor = 0 then Inr (0, 0, 0)
         else if maxc = rc then Inr (wrap (60 * (g - b) / divisor), s, v)
         else if maxc = gc then Inr (wrap (120 + 60 * (b - r) / divisor), s, v)
         else if maxc = bc then Inr (wrap (240 + 60 * (r - g) / divisor), s, v)
         else Inl HueAssertion)"

text \<open>
  The comparison that \<^verbatim>\<open>main\<close> hands to \<^verbatim>\<open>std::sort\<close>: \<^verbatim>\<open>hsv1[0] < hsv2[0]\<close>. The
  conversion never fails (\<open>bgr2hsv_total\<close> below), so the last case is never taken.
\<close>

definition hue_less :: "Color \<Rightarrow> Color \<Rightarrow> bool" where
  "hue_less bgr1 bgr2 =
     (case (bgr2hsv bgr1, bgr2hsv bgr2) of
        (Inr hsv1, Inr hsv2) \<Rightarrow> fst hsv1 < fst hsv2
      | _ \<Rightarrow> False)"

subsection \<open>Scoring\<close>

text \<open>
  \<^verbatim>\<open>ColorDiff\<close>: the channels are promoted to \<^verbatim>\<open>int\<close> before the subtraction, so the
  differences do not wrap.
\<close>

definition ColorDiff :: "Color \<Rightarrow> Color \<Rightarrow> real" where
  "ColorDiff bgr1 bgr2 =
     (let db = real_of_int (uint (ch0 bgr2) - uint (ch0 bgr1));
          dg = real_of_int (uint (ch1 bgr2) - uint (ch1 bgr1));
          dr = real_of_int (uint (ch2 bgr2) - uint (ch2 bgr1))
      in sqrt (db * db + dg * dg + dr * dr))"

text \<open>
  \<^verbatim>\<open>ColorPosDiff\<close>: the loop carries \<^verbatim>\<open>diff\<close> and \<^verbatim>\<open>colorCount\<close> over the block; each
  \<^verbatim>\<open>continue\<close> leaves both as they are.
\<close>

definition ColorPosDiff :: "Mat \<Rightarrow> Pos \<Rightarrow> Color \<Rightarrow> real" where
  "ColorPosDiff img pos color =
     (let (diff, colorCount) =
        foldl (\<lambda>(diff, colorCount) (nx, ny).
          if nx < 0 \<or> nx \<ge> cols img \<or> ny < 0 \<or> ny \<ge> rows img then (diff, colorCount)
          else let pixelColor = GetPixel img nx ny in
            if ch0 pixelColor = invalidColor then (diff, colorCount)
            else (diff + ColorDiff color pixelColor, colorCount + 1))
        (0, 0 :: int) (block pos);
          divisor = real_of_int (max colorCount 1)
      in diff / (divisor * divisor))"

text \<open>
  \<^verbatim>\<open>FindBestPos\<close>. The generator is passed by reference: the model returns the state the
  call leaves. Dereferencing the end iterator, which \<^verbatim>\<open>min_element\<close> returns for an
  empty range, is the error \<open>InvalidIterator\<close>.
\<close>

definition FindBestPos :: "'g draw \<Rightarrow> Mat \<Rightarrow> Pos set \<Rightarrow> Color \<Rightarrow> 'g \<Rightarrow> error + Pos \<times> 'g" where
  "FindBestPos draw img nextPositions color g =
     (let ratedPositions =
            map (\<lambda>pos. (ColorPosDiff img pos color, pos)) (sorted_list_of_set nextPositions);
          (shuffled, g') = shuffle draw ratedPositions g
      in case min_element (\<lambda>rp1 rp2. fst rp1 < fst rp2) shuffled of
           None \<Rightarrow> Inl InvalidIterator
         | Some rp \<Rightarrow> Inr (snd rp, g'))"

subsection \<open>Initialisation\<close>

text \<open>
  The greyscale matrix that \<^verbatim>\<open>imread\<close> returns (\<^verbatim>\<open>CV_8UC1\<close>), and \<^verbatim>\<open>NonBlackPositions\<close>.
\<close>

record Gray =
  gcols :: int
  grows :: int
  gray :: "int \<Rightarrow> int \<Rightarrow> Channel"

definition NonBlackPositions :: "Gray \<Rightarrow> Pos set" where
  "NonBlackPositions src =
     set (concat (map (\<lambda>y.
       concat (map (\<lambda>x. if gray src y x > 0 then [(x, y)] else []) [0..gcols src - 1]))
     [0..grows src - 1]))"

text \<open>The conversion of a \<^verbatim>\<open>double\<close> to \<^verbatim>\<open>int\<close> truncates towards zero.\<close>

definition toInt :: "real \<Rightarrow> int" where
  "toInt v = (if v \<ge> 0 then \<lfloor>v\<rfloor> else \<lceil>v\<rceil>)"

text \<open>The positions that \<^verbatim>\<open>Init\<close> inserts into \<^verbatim>\<open>initPositions\<close> for \<^verbatim>\<open>num\<close> 2, 3 and 4.\<close>

definition initPositions :: "int \<Rightarrow> Mat \<Rightarrow> Pos set" where
  "initPositions num img =
     (let c = real_of_int (cols img); r = real_of_int (rows img) in
      if num = 2 then
        {(toInt (0.33 * c), toInt (0.5 * r)), (toInt (0.67 * c), toInt (0.5 * r))}
      else if num = 3 then
        {(toInt (0.33 * c), toInt (0.4 * r)), (toInt (0.67 * c), toInt (0.4 * r)),
         (toInt (0.50 * c), toInt (0.69 * r))}
      else if num = 4 then
        {(toInt (0.33 * c), toInt (0.36 * r)), (toInt (0.67 * c), toInt (0.36 * r)),
         (toInt (0.36 * c), toInt (0.64 * r)), (toInt (0.64 * c), toInt (0.64 * r))}
      else {})"

definition plusLength :: PosComponent where
  "plusLength = 5"

text \<open>The body of the \<^verbatim>\<open>for_each\<close> of \<^verbatim>\<open>Init\<close>: the positions inserted for one \<^verbatim>\<open>pos\<close>.\<close>

definition plusShape :: "Pos \<Rightarrow> Pos set" where
  "plusShape pos =
     (let x = fst pos; y = snd pos in
      set (map (\<lambda>nx. (nx, y)) [x - plusLength..x + plusLength]) \<union>
      set (map (\<lambda>ny. (x, ny)) [y - plusLength..y + plusLength]))"

text \<open>
  \<^verbatim>\<open>Init\<close>. \<open>args\<close> is \<^verbatim>\<open>argv\<close> without the program's name, \<open>imread\<close> the file system as
  \<^verbatim>\<open>cv::imread\<close> reads it. The default \<^verbatim>\<open>Mat()\<close> has no rows and no columns.
\<close>

definition Init :: "(string \<Rightarrow> Gray) \<Rightarrow> string list \<Rightarrow> Mat \<times> Pos set" where
  "Init imread args =
     (case args of
        [] \<Rightarrow> (blank 0 0, {})
      | a # _ \<Rightarrow>
         let num0 = (0 :: int);
             num1 = (if a = ''2'' then 2 else num0);
             num2 = (if a = ''3'' then 3 else num1);
             num = (if a = ''4'' then 4 else num2)
         in if num = 0 then
              let src = imread a;
                  img = blank (grows src) (gcols src)
              in (img, NonBlackPositions src)
            else
              let img = blank 1080 1920;
                  nextPositions = (\<Union>pos \<in> initPositions num img. plusShape pos)
              in (img, nextPositions))"

subsection \<open>The growth loop\<close>

text \<open>
  The variables of \<^verbatim>\<open>main\<close> that the loop reads and writes (\<open>canvas\<close> is its
  \<^verbatim>\<open>image\<close>, \<open>gen\<close> its generator \<^verbatim>\<open>g\<close>). \<open>placements\<close> is not a
  variable of the program: it records, in order, the position and colour of every
  \<^verbatim>\<open>SetPixel\<close> of the loop. The frames written every \<^verbatim>\<open>saveEveryNFrames\<close> colours
  (\<^verbatim>\<open>Embellish\<close>, \<^verbatim>\<open>imwrite\<close>, \<^verbatim>\<open>cout\<close>) are output only; of that branch the model keeps
  the counter \<^verbatim>\<open>imgNum\<close>.
\<close>

record 'g state =
  canvas :: Mat
  nextPositions :: "Pos set"
  colors :: "Color list"
  gen :: 'g
  imgNum :: nat
  placements :: "(Pos \<times> Color) list"

definition saveEveryNFrames :: nat where
  "saveEveryNFrames = 512"

text \<open>One run of the loop body.\<close>

definition step :: "'g draw \<Rightarrow> 'g state \<Rightarrow> error + 'g state" where
  "step draw s =
     (let color = last (colors s);
          colors' = butlast (colors s)
      in case FindBestPos draw (canvas s) (nextPositions s) color (gen s) of
           Inl e \<Rightarrow> Inl e
         | Inr (pos, g') \<Rightarrow>
             if pos \<notin> nextPositions s then Inl MemberAssertion
             else
               let erased = nextPositions s - {pos} in
               case SetPixel (canvas s) (fst pos) (snd pos) color of
                 Inl e \<Rightarrow> Inl e
               | Inr img' \<Rightarrow>
                   let newFreePos = GetFreeNeighbours img' pos in
                   Inr \<lparr>canvas = img',
                        nextPositions = erased \<union> newFreePos,
                        colors = colors',
                        gen = g',
                        imgNum = (if length colors' mod saveEveryNFrames = 0
                                  then imgNum s + 1 else imgNum s),
                        placements = placements s @ [(pos, color)]\<rparr>)"

definition Running :: "'g state \<Rightarrow> bool" where
  "Running s = (colors s \<noteq> [] \<and> nextPositions s \<noteq> {})"

text \<open>The \<^verbatim>\<open>while\<close> loop of \<^verbatim>\<open>main\<close>.\<close>

function grow :: "'g draw \<Rightarrow> 'g state \<Rightarrow> error + 'g state" where
  "grow draw s =
     (if Running s
      then (case step draw s of Inl e \<Rightarrow> Inl e | Inr s' \<Rightarrow> grow draw s')
      else Inr s)"
  by pat_completeness auto
termination
proof (relation "measure (\<lambda>(draw, s). length (colors s))")
  show "wf (measure (\<lambda>(draw, s). length (colors s)))" by simp
next
  fix draw :: "'g draw" and s s' :: "'g state"
  assume "Running s" and "step draw s = Inr s'"
  then have "colors s' = butlast (colors s)" and "colors s \<noteq> []"
    by (auto simp: step_def Running_def Let_def split: sum.splits prod.splits if_splits)
  then show "((draw, s'), (draw, s)) \<in> measure (\<lambda>(draw, s). length (colors s))"
    by simp
qed

declare grow.simps [simp del]

text \<open>
  \<^verbatim>\<open>main\<close> up to the loop: the palette is generated, shuffled with the generator seeded
  with 1 (\<open>mt19937 1\<close>; \<open>mt19937\<close> stands for the library's constructor) and sorted by
  hue. The \<^verbatim>\<open>random_device\<close> that \<^verbatim>\<open>main\<close> declares is never read.
\<close>

definition start :: "'g draw \<Rightarrow> Color sorter \<Rightarrow> (nat \<Rightarrow> 'g) \<Rightarrow> Mat \<times> Pos set \<Rightarrow> 'g state" where
  "start draw srt mt19937 init =
     (let (shuffled, g) = shuffle draw generated_colors (mt19937 1) in
      \<lparr>canvas = fst init, nextPositions = snd init, colors = srt hue_less shuffled,
       gen = g, imgNum = 0, placements = []\<rparr>)"

text \<open>
  \<^verbatim>\<open>main\<close>: the exit status, and the final state when the loop ran. \<open>rd\<close> is the value of
  the \<^verbatim>\<open>random_device\<close>.
\<close>

definition main ::
    "'g draw \<Rightarrow> Color sorter \<Rightarrow> (nat \<Rightarrow> 'g) \<Rightarrow> 'r \<Rightarrow> (string \<Rightarrow> Gray) \<Rightarrow> string list
      \<Rightarrow> error + int \<times> 'g state option" where
  "main draw srt mt19937 rd imread args =
     (let init = Init imread args in
      if rows (fst init) = 0 then Inr (1, None)
      else case grow draw (start draw srt mt19937 init) of
             Inl e \<Rightarrow> Inl e
           | Inr s \<Rightarrow> Inr (0, Some s))"

subsection \<open>Notions of the specification\<close>

text \<open>The Chebyshev distance of two positions.\<close>

definition chebyshev :: "Pos \<Rightarrow> Pos \<Rightarrow> int" where
  "chebyshev p q = max \<bar>fst p - fst q\<bar> \<bar>snd p - snd q\<bar>"


text \<open>
  The test that the code makes (the blue channel is \<^verbatim>\<open>invalidColor\<close>) singles out the
  unset cells: every cell of the canvas whose blue channel is 0 is the sentinel.
\<close>

definition blue_marks_unset :: "Mat \<Rightarrow> bool" where
  "blue_marks_unset img =
     (\<forall>x y. inside img x y \<and> ch0 (GetPixel img x y) = invalidColor
        \<longrightarrow> GetPixel img x y = sentinel)"

text \<open>The cells that the loop of \<^verbatim>\<open>ColorPosDiff\<close> does not skip.\<close>

definition counted :: "Mat \<Rightarrow> Pos \<Rightarrow> bool" where
  "counted img q =
     (inside img (fst q) (snd q) \<and> ch0 (GetPixel img (fst q) (snd q)) \<noteq> invalidColor)"

text \<open>The Euclidean distance of two colours over their three channels.\<close>

definition euclidean :: "Color \<Rightarrow> Color \<Rightarrow> real" where
  "euclidean a b =
     sqrt ((real_of_int (uint (ch0 a)) - real_of_int (uint (ch0 b)))\<^sup>2 +
           (real_of_int (uint (ch1 a)) - real_of_int (uint (ch1 b)))\<^sup>2 +
           (real_of_int (uint (ch2 a)) - real_of_int (uint (ch2 b)))\<^sup>2)"




text \<open>The pairs that \<^verbatim>\<open>FindBestPos\<close> rates, in the order of the set.\<close>

definition rated :: "Mat \<Rightarrow> Pos set \<Rightarrow> Color \<Rightarrow> (real \<times> Pos) list" where
  "rated img F color = map (\<lambda>pos. (ColorPosDiff img pos color, pos)) (sorted_list_of_set F)"

text \<open>A shuffle for the examples: it reverses the range; the generator is a counter.\<close>

definition reversing :: "nat draw" where
  "reversing g n = (rev [0..<n], Suc g)"

text \<open>A canvas of one row and two columns, both cells open, and two colours to place.\<close>

definition two_cells :: "nat state" where
  "two_cells = \<lparr>canvas = blank 1 2, nextPositions = {(0, 0), (1, 0)},
     colors = [Color 8 8 8, Color 4 4 4], gen = 0, imgNum = 0, placements = []\<rparr>"

subsection \<open>The run and its invariants\<close>

text \<open>
  The states of a run: \<open>reaches draw s t\<close> holds when the loop, started in \<open>s\<close>, is in
  state \<open>t\<close> after some number of iterations (each one taken because the loop's
  condition held, and completed without an error).
\<close>

inductive reaches :: "'g draw \<Rightarrow> 'g state \<Rightarrow> 'g state \<Rightarrow> bool" for draw :: "'g draw" where
  here: "reaches draw s s"
| iteration: "reaches draw s t \<Longrightarrow> Running t \<Longrightarrow> step draw t = Inr u \<Longrightarrow> reaches draw s u"

text \<open>Every frontier position is on the canvas.\<close>

definition frontier_inside :: "'g state \<Rightarrow> bool" where
  "frontier_inside s = (\<forall>p \<in> nextPositions s. inside (canvas s) (fst p) (snd p))"

text \<open>Every frontier position is on the canvas and still unset there.\<close>

definition frontier_unset :: "'g state \<Rightarrow> bool" where
  "frontier_unset s =
     (\<forall>p \<in> nextPositions s.
        inside (canvas s) (fst p) (snd p) \<and> GetPixel (canvas s) (fst p) (snd p) = sentinel)"

text \<open>
  What the loop relies on: the frontier is unset, a blue channel of 0 marks the unset
  cells of the canvas, and no colour still to be placed has blue channel 0.
\<close>

definition consistent :: "'g state \<Rightarrow> bool" where
  "consistent s =
     (frontier_unset s \<and> blue_marks_unset (canvas s) \<and>
      (\<forall>c \<in> set (colors s). ch0 c \<noteq> invalidColor))"

text \<open>A file system in which every image is a single white pixel.\<close>

definition one_pixel :: "string \<Rightarrow> Gray" where
  "one_pixel path = \<lparr>gcols = 1, grows = 1, gray = (\<lambda>y x. 255)\<rparr>"

text \<open>The canvas with one more cell written.\<close>

definition paint :: "Mat \<Rightarrow> Pos \<Rightarrow> Color \<Rightarrow> Mat" where
  "paint im pos c = im\<lparr>pixels := (pixels im)(snd pos := (pixels im (snd pos))(fst pos := c))\<rparr>"

text \<open>The two states that the loop passes through when it starts in \<open>two_cells\<close>.\<close>

definition after_one :: "nat state" where
  "after_one = \<lparr>canvas = paint (blank 1 2) (1, 0) (Color 4 4 4), nextPositions = {(0, 0)},
     colors = [Color 8 8 8], gen = 1, imgNum = 0, placements = [((1, 0), Color 4 4 4)]\<rparr>"

definition after_two :: "nat state" where
  "after_two = \<lparr>canvas = paint (paint (blank 1 2) (1, 0) (Color 4 4 4)) (0, 0) (Color 8 8 8),
     nextPositions = {}, colors = [], gen = 2, imgNum = 1,
     placements = [((1, 0), Color 4 4 4), ((0, 0), Color 8 8 8)]\<rparr>"

subsection \<open>Sorting by hue\<close>

text \<open>The hue of a colour: the first component of \<^verbatim>\<open>bgr2hsv\<close>.\<close>

definition hue :: "Color \<Rightarrow> real" where
  "hue bgr = (case bgr2hsv bgr of Inr hsv \<Rightarrow> fst hsv | Inl e \<Rightarrow> 0)"

text \<open>
  The specification's ordering: \<open>ys\<close> is a stable reorder of \<open>xs\<close> by ascending key when
  it is a permutation of \<open>xs\<close>, ascending in the key, and the elements of every one key
  stand in \<open>ys\<close> in the order in which they stand in \<open>xs\<close>.
\<close>

definition stable_reorder :: "('a \<Rightarrow> real) \<Rightarrow> 'a list \<Rightarrow> 'a list \<Rightarrow> bool" where
  "stable_reorder key xs ys =
     (mset ys = mset xs \<and> sorted (map key ys) \<and>
      (\<forall>k. filter (\<lambda>x. key x = k) ys = filter (\<lambda>x. key x = k) xs))"

text \<open>
  A sort that the library is free to be: insertion from the left, each element placed in
  front of the first element that is not smaller. Elements that compare equal end up in
  the reverse of their input order.
\<close>

fun insert_before :: "('a \<Rightarrow> 'a \<Rightarrow> bool) \<Rightarrow> 'a \<Rightarrow> 'a list \<Rightarrow> 'a list" where
  "insert_before cmp x [] = [x]"
| "insert_before cmp x (y # ys) = (if cmp y x then y # insert_before cmp x ys else x # y # ys)"

definition front_insertion_sort :: "'a sorter" where
  "front_insertion_sort cmp xs = foldl (\<lambda>acc x. insert_before cmp x acc) [] xs"

text \<open>
  The record of placements agrees with the canvas: no position and no colour occurs
  twice, every recorded cell holds its recorded colour, and no recorded colour is still
  in the palette, which has no duplicates itself.
\<close>

definition record_ok :: "'g state \<Rightarrow> bool" where
  "record_ok s =
     (distinct (colors s) \<and> distinct (map fst (placements s)) \<and>
      distinct (map snd (placements s)) \<and>
      (\<forall>pc \<in> set (placements s).
         GetPixel (canvas s) (fst (fst pc)) (snd (fst pc)) = snd pc \<and>
         ch0 (snd pc) \<noteq> invalidColor \<and> snd pc \<notin> set (colors s)))"

text \<open>A canvas of a single open cell and two colours: the frontier runs out first.\<close>

definition one_cell :: "nat state" where
  "one_cell = \<lparr>canvas = blank 1 1, nextPositions = {(0, 0)},
     colors = [Color 8 8 8, Color 4 4 4], gen = 0, imgNum = 0, placements = []\<rparr>"

definition boxed_in :: "nat state" where
  "boxed_in = \<lparr>canvas = paint (blank 1 1) (0, 0) (Color 4 4 4), nextPositions = {},
     colors = [Color 8 8 8], gen = 1, imgNum = 0, placements = [((0, 0), Color 4 4 4)]\<rparr>"

section \<open>Properties\<close>

subsection \<open>The palette\<close>

lemma step_colors: "step draw s = Inr s' \<Longrightarrow> colors s' = butlast (colors s)"
  by (auto simp: step_def Let_def split: sum.splits prod.splits if_splits)

lemma unat_word_of_int_small:
  "0 \<le> k \<Longrightarrow> k < 256 \<Longrightarrow> uint (word_of_int k :: 8 word) = k"
  by (simp add: uint_word_of_int take_bit_int_eq_self)

lemma mkColor_channels:
  assumes "1 \<le> b" "b \<le> 63" "1 \<le> g" "g \<le> 127" "1 \<le> r" "r \<le> 127"
  shows "uint (ch0 (mkColor b g r)) = 4 * b"
    and "uint (ch1 (mkColor b g r)) = 2 * g"
    and "uint (ch2 (mkColor b g r)) = 2 * r"
proof -
  have "uint (word_of_int (4 * b) :: 8 word) = 4 * b"
    by (rule unat_word_of_int_small) (use assms in simp_all)
  moreover have "ch0 (mkColor b g r) = word_of_int (4 * b)"
    by (simp add: mkColor_def colMult_def)
  ultimately show "uint (ch0 (mkColor b g r)) = 4 * b"
    by (simp only:)
  have "uint (word_of_int (2 * g) :: 8 word) = 2 * g"
    by (rule unat_word_of_int_small) (use assms in simp_all)
  moreover have "ch1 (mkColor b g r) = word_of_int (2 * g)"
    by (simp add: mkColor_def colMult_def)
  ultimately show "uint (ch1 (mkColor b g r)) = 2 * g"
    by (simp only:)
  have "uint (word_of_int (2 * r) :: 8 word) = 2 * r"
    by (rule unat_word_of_int_small) (use assms in simp_all)
  moreover have "ch2 (mkColor b g r) = word_of_int (2 * r)"
    by (simp add: mkColor_def colMult_def)
  ultimately show "uint (ch2 (mkColor b g r)) = 2 * r"
    by (simp only:)
qed

lemma mkColor_inj:
  assumes "1 \<le> b" "b \<le> 63" "1 \<le> g" "g \<le> 127" "1 \<le> r" "r \<le> 127"
    and "1 \<le> b'" "b' \<le> 63" "1 \<le> g'" "g' \<le> 127" "1 \<le> r'" "r' \<le> 127"
    and eq: "mkColor b g r = mkColor b' g' r'"
  shows "b = b' \<and> g = g' \<and> r = r'"
proof -
  have "uint (ch0 (mkColor b g r)) = uint (ch0 (mkColor b' g' r'))"
    and "uint (ch1 (mkColor b g r)) = uint (ch1 (mkColor b' g' r'))"
    and "uint (ch2 (mkColor b g r)) = uint (ch2 (mkColor b' g' r'))"
    using eq by simp_all
  then show ?thesis
    using assms(1-12) by (simp add: mkColor_channels)
qed

lemma generated_colors_product:
  "generated_colors =
     map (\<lambda>(b, g, r). mkColor b g r) (List.product [1..63] (List.product [1..127] [1..127]))"
  by (simp add: generated_colors_def colValues_def product_concat_map map_concat comp_def)

lemma generated_colors_iff:
  "c \<in> set generated_colors \<longleftrightarrow>
     (\<exists>b g r. 1 \<le> b \<and> b \<le> 63 \<and> 1 \<le> g \<and> g \<le> 127 \<and> 1 \<le> r \<and> r \<le> 127 \<and> c = mkColor b g r)"
proof
  assume "c \<in> set generated_colors"
  then obtain b g r where "b \<in> {1..63}" "g \<in> {1..127}" "r \<in> {1..127}" "c = mkColor b g r"
    unfolding generated_colors_product by auto
  then show "\<exists>b g r. 1 \<le> b \<and> b \<le> 63 \<and> 1 \<le> g \<and> g \<le> 127 \<and> 1 \<le> r \<and> r \<le> 127 \<and> c = mkColor b g r"
    by (intro exI [of _ b] exI [of _ g] exI [of _ r]) simp
next
  assume "\<exists>b g r. 1 \<le> b \<and> b \<le> 63 \<and> 1 \<le> g \<and> g \<le> 127 \<and> 1 \<le> r \<and> r \<le> 127 \<and> c = mkColor b g r"
  then obtain b g r where "b \<in> {1..63}" "g \<in> {1..127}" "r \<in> {1..127}" "c = mkColor b g r"
    by auto
  then have "c \<in> (\<lambda>(b, g, r). mkColor b g r) ` ({1..63} \<times> {1..127} \<times> {1..127})"
    by (intro image_eqI [of _ _ "(b, g, r)"]) simp_all
  then show "c \<in> set generated_colors"
    unfolding generated_colors_product by simp
qed

lemma distinct_generated_colors: "distinct generated_colors"
  unfolding generated_colors_product
proof (rule distinct_map [THEN iffD2], intro conjI)
  show "distinct (List.product [1..63] (List.product [1..127] [1::int..127]))"
    by (intro distinct_product) simp_all
  show "inj_on (\<lambda>(b, g, r). mkColor b g r)
          (set (List.product [1..63] (List.product [1..127] [1..127])))"
    by (rule inj_onI) (auto dest!: mkColor_inj [rotated -1])
qed

lemma generated_colors_channels:
  assumes "c \<in> set generated_colors"
  shows "4 \<le> uint (ch0 c)" and "2 \<le> uint (ch1 c)" and "2 \<le> uint (ch2 c)"
proof -
  obtain b g r where "1 \<le> b" "b \<le> 63" "1 \<le> g" "g \<le> 127" "1 \<le> r" "r \<le> 127" "c = mkColor b g r"
    using assms generated_colors_iff by blast
  then show "4 \<le> uint (ch0 c)" and "2 \<le> uint (ch1 c)" and "2 \<le> uint (ch2 c)"
    by (simp_all add: mkColor_channels)
qed

text \<open>
  C9. The colours that the three loops of \<^verbatim>\<open>main\<close> generate are pairwise distinct, none
  of them is the sentinel pixel, and each has all of its three channels different from 0.
\<close>

theorem palette_distinct_nonzero:
  "distinct generated_colors \<and>
   (\<forall>c \<in> set generated_colors. c \<noteq> sentinel \<and> ch0 c \<noteq> 0 \<and> ch1 c \<noteq> 0 \<and> ch2 c \<noteq> 0)"
proof (intro conjI ballI)
  show "distinct generated_colors" by (rule distinct_generated_colors)
next
  fix c assume c: "c \<in> set generated_colors"
  from generated_colors_channels [OF c]
  show "ch0 c \<noteq> 0" and "ch1 c \<noteq> 0" and "ch2 c \<noteq> 0" by auto
  then show "c \<noteq> sentinel" by (auto simp: sentinel_def)
qed

theorem palette_distinct_nonzero_witness:
  "Color 4 2 2 \<in> set generated_colors \<and> Color 4 2 2 \<noteq> sentinel \<and>
   ch0 (Color 4 2 2) \<noteq> 0 \<and> ch1 (Color 4 2 2) \<noteq> 0 \<and> ch2 (Color 4 2 2) \<noteq> 0"
proof -
  have "Color 4 2 2 = mkColor 1 1 1"
    by (simp add: mkColor_def colMult_def)
  then have m: "Color 4 2 2 \<in> set generated_colors"
    by (subst generated_colors_iff) force
  with palette_distinct_nonzero show ?thesis by blast
qed

subsection \<open>The scorer\<close>

lemma set_block: "set (block pos) = {q. chebyshev pos q \<le> spread}"
proof -
  have "set (block pos) =
      {q. fst q \<in> {fst pos - 1..fst pos + 1} \<and> snd q \<in> {snd pos - 1..snd pos + 1}}"
    by (auto simp: block_def spread_def Let_def)
  also have "\<dots> = {q. chebyshev pos q \<le> spread}"
    by (auto simp: chebyshev_def spread_def)
  finally show ?thesis .
qed

lemma distinct_block: "distinct (block pos)"
  unfolding block_def Let_def
  by (rule distinct_concat) (auto simp: distinct_map inj_on_def)

lemma ColorPosDiff_loop:
  "foldl (\<lambda>(diff, colorCount) (nx, ny).
          if nx < 0 \<or> nx \<ge> cols img \<or> ny < 0 \<or> ny \<ge> rows img then (diff, colorCount)
          else let pixelColor = GetPixel img nx ny in
            if ch0 pixelColor = invalidColor then (diff, colorCount)
            else (diff + ColorDiff color pixelColor, colorCount + 1))
        (d, c) qs
   = (d + (\<Sum>q\<leftarrow>filter (counted img) qs. ColorDiff color (GetPixel img (fst q) (snd q))),
      c + int (length (filter (counted img) qs)))"
  by (induction qs arbitrary: d c) (auto simp: counted_def inside_def Let_def)

lemma ColorPosDiff_counted:
  "ColorPosDiff img pos color =
     (\<Sum>q \<in> {q \<in> set (block pos). counted img q}. ColorDiff color (GetPixel img (fst q) (snd q)))
     / (real (max (card {q \<in> set (block pos). counted img q}) 1))\<^sup>2"
proof -
  let ?qs = "filter (counted img) (block pos)"
  have d: "distinct ?qs" by (simp add: distinct_block)
  have s: "set ?qs = {q \<in> set (block pos). counted img q}" by simp
  have sum: "(\<Sum>q\<leftarrow>?qs. ColorDiff color (GetPixel img (fst q) (snd q)))
      = (\<Sum>q \<in> {q \<in> set (block pos). counted img q}. ColorDiff color (GetPixel img (fst q) (snd q)))"
    using sum_list_distinct_conv_sum_set [OF d] s by simp
  have len: "length ?qs = card {q \<in> set (block pos). counted img q}"
    using distinct_card [OF d] s by simp
  have "real_of_int (max (int (length ?qs)) 1) = real (max (length ?qs) 1)"
    by (simp add: max_def)
  then show ?thesis
    unfolding ColorPosDiff_def ColorPosDiff_loop sum [symmetric] len [symmetric]
    by (simp add: power2_eq_square Let_def)
qed

lemma ColorDiff_euclidean: "ColorDiff a b = euclidean a b"
proof -
  have "(x - y) * (x - y) = (y - x)\<^sup>2" for x y :: real
    by (simp add: power2_eq_square algebra_simps)
  then show ?thesis
    by (simp add: ColorDiff_def euclidean_def Let_def)
qed







subsection \<open>Shuffling and the minimum\<close>

lemma mset_shuffle:
  assumes "permuting draw"
  shows "mset (fst (shuffle draw xs g)) = mset xs"
proof -
  have "mset (fst (draw g (length xs))) = mset [0..<length xs]"
    using assms unfolding permuting_def by blast
  then have "image_mset (\<lambda>i. xs ! i) (mset (fst (draw g (length xs))))
      = image_mset (\<lambda>i. xs ! i) (mset [0..<length xs])"
    by (simp only:)
  then have "mset (map (\<lambda>i. xs ! i) (fst (draw g (length xs))))
      = mset (map (\<lambda>i. xs ! i) [0..<length xs])"
    by (simp only: mset_map)
  then show ?thesis
    by (simp only: shuffle_def fst_conv map_nth)
qed

lemma find_append:
  "find P (xs @ ys) = (case find P xs of None \<Rightarrow> find P ys | Some x \<Rightarrow> Some x)"
  by (induction xs) simp_all

lemma permuting_reversing: "permuting reversing"
  by (simp add: permuting_def reversing_def)

lemma shuffle_reversing: "shuffle reversing xs g = (rev xs, Suc g)"
  by (simp add: shuffle_def reversing_def rev_nth rev_map [symmetric] map_nth
      flip: rev_map)

lemma foldl_smallest:
  fixes f :: "'a \<Rightarrow> 'b::linorder"
  defines "m \<equiv> \<lambda>x xs. foldl (\<lambda>smallest y. if f y < f smallest then y else smallest) x xs"
  shows "find (\<lambda>a. f a \<le> f (m x xs)) (x # xs) = Some (m x xs) \<and>
         (\<forall>b \<in> set (x # xs). f (m x xs) \<le> f b)"
proof (induction xs rule: rev_induct)
  case Nil
  show ?case by (simp add: m_def)
next
  case (snoc y xs)
  let ?m = "m x xs"
  have step: "m x (xs @ [y]) = (if f y < f ?m then y else ?m)"
    by (simp add: m_def)
  show ?case
  proof (cases "f y < f ?m")
    case True
    then have "\<forall>b \<in> set (x # xs). \<not> f b \<le> f y"
      using snoc.IH by auto
    then have "find (\<lambda>a. f a \<le> f y) (x # xs) = None"
      by (simp only: find_None_iff) blast
    then have "find (\<lambda>a. f a \<le> f y) ((x # xs) @ [y]) = Some y"
      by (simp only: find_append) simp
    moreover have "\<forall>b \<in> set ((x # xs) @ [y]). f y \<le> f b"
      using True snoc.IH by auto
    ultimately show ?thesis using True by (simp add: step)
  next
    case False
    from snoc.IH have "find (\<lambda>a. f a \<le> f ?m) ((x # xs) @ [y]) = Some ?m"
      by (simp only: find_append) simp
    moreover have "\<forall>b \<in> set ((x # xs) @ [y]). f ?m \<le> f b"
      using False snoc.IH by auto
    ultimately show ?thesis using False by (simp add: step)
  qed
qed

lemma min_element_first_minimum:
  fixes f :: "'a \<Rightarrow> 'b::linorder"
  assumes "xs \<noteq> []"
  shows "\<exists>m. min_element (\<lambda>a b. f a < f b) xs = Some m \<and>
             find (\<lambda>a. \<forall>b \<in> set xs. f a \<le> f b) xs = Some m \<and>
             m \<in> set xs \<and> (\<forall>b \<in> set xs. f m \<le> f b)"
proof -
  from assms obtain x ys where xs: "xs = x # ys" by (cases xs) auto
  define m where "m = foldl (\<lambda>smallest y. if f y < f smallest then y else smallest) x ys"
  have fm: "find (\<lambda>a. f a \<le> f m) xs = Some m" and least: "\<forall>b \<in> set xs. f m \<le> f b"
    using foldl_smallest [of f x ys] by (simp_all add: m_def xs)
  have mem: "m \<in> set xs"
    using fm by (auto simp: find_Some_iff)
  have "(\<forall>b \<in> set xs. f a \<le> f b) \<longleftrightarrow> f a \<le> f m" for a
    using least mem by (meson order_trans)
  then have "find (\<lambda>a. \<forall>b \<in> set xs. f a \<le> f b) xs = Some m"
    using fm by simp
  moreover have "min_element (\<lambda>a b. f a < f b) xs = Some m"
    by (simp add: xs m_def)
  ultimately show ?thesis using mem least by blast
qed

lemma ColorPosDiff_blank: "ColorPosDiff (blank r c) pos color = 0"
proof -
  have "{q \<in> set (block pos). counted (blank r c) q} = {}"
    by (auto simp: counted_def blank_def GetPixel_def sentinel_def)
  then show ?thesis
    using ColorPosDiff_counted [of "blank r c" pos color] by (simp only: sum.empty)
qed

subsection \<open>The best position\<close>

lemma FindBestPos_chooses:
  assumes "permuting draw" and "finite (nextPositions s)" and "nextPositions s \<noteq> {}"
  shows "(\<exists>rp. find (\<lambda>rp. \<forall>rq \<in> set (fst (shuffle draw (rated (canvas s) (nextPositions s) color) g)).
                     fst rp \<le> fst rq)
                (fst (shuffle draw (rated (canvas s) (nextPositions s) color) g)) = Some rp
            \<and> FindBestPos draw (canvas s) (nextPositions s) color g
                = Inr (snd rp, snd (draw g (card (nextPositions s))))
            \<and> snd rp \<in> nextPositions s
            \<and> fst rp = ColorPosDiff (canvas s) (snd rp) color
            \<and> (\<forall>q \<in> nextPositions s.
                  ColorPosDiff (canvas s) (snd rp) color \<le> ColorPosDiff (canvas s) q color))
         \<and> mset (fst (shuffle draw (rated (canvas s) (nextPositions s) color) g))
           = mset (rated (canvas s) (nextPositions s) color)
         \<and> step draw s \<noteq> Inl MemberAssertion \<and> step draw s \<noteq> Inl InvalidIterator"
proof -
  let ?F = "nextPositions s"
  let ?r = "rated (canvas s) ?F color"
  let ?sh = "\<lambda>color g. fst (shuffle draw (rated (canvas s) ?F color) g)"
  have ms: "mset (?sh color g) = mset (rated (canvas s) ?F color)" for color g
    by (rule mset_shuffle [OF assms(1)])
  have set_sh: "set (?sh color g) = (\<lambda>pos. (ColorPosDiff (canvas s) pos color, pos)) ` ?F" for color g
    using mset_eq_setD [OF ms [of color g]] assms(2) by (simp add: rated_def)
  have ne: "?sh color g \<noteq> []" for color g
    using set_sh [of color g] assms(3) by auto
  have len: "length (rated (canvas s) ?F color) = card ?F" for color
    by (simp add: rated_def)
  have best: "\<exists>rp. find (\<lambda>rp. \<forall>rq \<in> set (?sh color g). fst rp \<le> fst rq) (?sh color g) = Some rp
            \<and> FindBestPos draw (canvas s) ?F color g = Inr (snd rp, snd (draw g (card ?F)))
            \<and> snd rp \<in> ?F
            \<and> fst rp = ColorPosDiff (canvas s) (snd rp) color
            \<and> (\<forall>q \<in> ?F. ColorPosDiff (canvas s) (snd rp) color \<le> ColorPosDiff (canvas s) q color)"
    for color g
  proof -
    from min_element_first_minimum [OF ne [of color g], of fst]
    obtain m where m: "min_element (\<lambda>a b. fst a < fst b) (?sh color g) = Some m"
      "find (\<lambda>a. \<forall>b \<in> set (?sh color g). fst a \<le> fst b) (?sh color g) = Some m"
      "m \<in> set (?sh color g)" "\<forall>b \<in> set (?sh color g). fst m \<le> fst b"
      by blast
    from m(3) set_sh [of color g]
    have mem: "snd m \<in> ?F" and cost: "fst m = ColorPosDiff (canvas s) (snd m) color"
      by auto
    have least: "\<forall>q \<in> ?F. ColorPosDiff (canvas s) (snd m) color \<le> ColorPosDiff (canvas s) q color"
      using m(4) set_sh [of color g] cost by auto
    have "FindBestPos draw (canvas s) ?F color g = Inr (snd m, snd (draw g (card ?F)))"
      using m(1) len [of color]
      by (simp add: FindBestPos_def rated_def [symmetric] Let_def split_beta)
         (simp add: shuffle_def)
    with m(2) mem cost least show ?thesis by blast
  qed
  have "step draw s \<noteq> Inl MemberAssertion" and "step draw s \<noteq> Inl InvalidIterator"
    using best [of "last (colors s)" "gen s"]
    by (auto simp: step_def Let_def SetPixel_def split: sum.splits)
  with best [of color g] ms [of color g] show ?thesis
    by (intro conjI)
qed

text \<open>
  C7. For a non-empty frontier, \<^verbatim>\<open>FindBestPos\<close> rates every frontier position, shuffles
  the pairs once with the generator, and returns the position of the first pair, in the
  shuffled order, whose cost no pair undercuts, together with the generator as the
  shuffle left it. The position has minimal cost over the frontier and belongs to the
  frontier, so the loop body fails neither at its assertion nor at the iterator.
\<close>

theorem FindBestPos_first_minimum:
  assumes "permuting draw" and "finite (nextPositions s)" and "nextPositions s \<noteq> {}"
  shows "(\<exists>rp. find (\<lambda>rp. \<forall>rq \<in> set (fst (shuffle draw (rated (canvas s) (nextPositions s) color) g)).
                     fst rp \<le> fst rq)
                (fst (shuffle draw (rated (canvas s) (nextPositions s) color) g)) = Some rp
            \<and> FindBestPos draw (canvas s) (nextPositions s) color g
                = Inr (snd rp, snd (draw g (card (nextPositions s))))
            \<and> snd rp \<in> nextPositions s
            \<and> fst rp = ColorPosDiff (canvas s) (snd rp) color
            \<and> (\<forall>q \<in> nextPositions s.
                  ColorPosDiff (canvas s) (snd rp) color \<le> ColorPosDiff (canvas s) q color))
         \<and> mset (fst (shuffle draw (rated (canvas s) (nextPositions s) color) g))
           = mset (rated (canvas s) (nextPositions s) color)
         \<and> step draw s \<noteq> Inl MemberAssertion \<and> step draw s \<noteq> Inl InvalidIterator"
  using assms by (rule FindBestPos_chooses)

lemma sorted_two_cells: "sorted_list_of_set {(0 :: int, 0 :: int), (1, 0)} = [(0, 0), (1, 0)]"
  by code_simp

theorem FindBestPos_first_minimum_witness:
  "permuting reversing \<and> finite (nextPositions two_cells) \<and> nextPositions two_cells \<noteq> {} \<and>
   FindBestPos reversing (blank 1 2) {(0, 0), (1, 0)} (Color 4 4 4) 0 = Inr ((1, 0), 1) \<and>
   step reversing two_cells \<noteq> Inl MemberAssertion"
proof -
  have f: "finite (nextPositions two_cells)" and n: "nextPositions two_cells \<noteq> {}"
    by (simp_all add: two_cells_def)
  have sh: "fst (shuffle reversing (rated (blank 1 2) {(0, 0), (1, 0)} (Color 4 4 4)) (0 :: nat))
      = [(0, (1, 0)), (0, (0, 0))]"
    by (simp add: shuffle_reversing rated_def sorted_two_cells ColorPosDiff_blank)
  have "find (\<lambda>rp. \<forall>rq \<in> set [(0 :: real, (1 :: int, 0 :: int)), (0, (0, 0))]. fst rp \<le> fst rq)
      [(0, (1, 0)), (0, (0, 0))] = Some (0, (1, 0))"
    by simp
  with FindBestPos_first_minimum [OF permuting_reversing f n, of "Color 4 4 4" 0]
  have "FindBestPos reversing (blank 1 2) {(0, 0), (1, 0)} (Color 4 4 4) 0 = Inr ((1, 0), 1)"
    by (auto simp: two_cells_def sh reversing_def)
  with FindBestPos_first_minimum [OF permuting_reversing f n, of "Color 4 4 4" 0]
  show ?thesis
    using permuting_reversing f n by simp
qed

subsection \<open>The loop body\<close>

lemma SetPixel_Inr:
  assumes "SetPixel im x y c = Inr im'"
  shows "inside im x y" and "cols im' = cols im" and "rows im' = rows im"
    and "GetPixel im' x' y' = (if x' = x \<and> y' = y then c else GetPixel im x' y')"
    and "inside im' x' y' = inside im x' y'"
  using assms by (auto simp: SetPixel_def GetPixel_def inside_def split: if_splits)

lemma GetFreeNeighbours_iff:
  "q \<in> GetFreeNeighbours im pos \<longleftrightarrow>
     chebyshev pos q \<le> spread \<and> inside im (fst q) (snd q) \<and>
     ch0 (GetPixel im (fst q) (snd q)) = invalidColor"
proof -
  have "q \<in> GetFreeNeighbours im pos \<longleftrightarrow>
      q \<in> set (block pos) \<and> inside im (fst q) (snd q) \<and>
      ch0 (GetPixel im (fst q) (snd q)) = invalidColor"
    by (auto simp: GetFreeNeighbours_def Let_def inside_def)
  then show ?thesis by (simp add: set_block)
qed

lemma finite_GetFreeNeighbours: "finite (GetFreeNeighbours im pos)"
  by (simp add: GetFreeNeighbours_def Let_def)

lemma step_Inr:
  assumes "step draw s = Inr s'"
  obtains pos where
    "FindBestPos draw (canvas s) (nextPositions s) (last (colors s)) (gen s) = Inr (pos, gen s')"
    "pos \<in> nextPositions s"
    "SetPixel (canvas s) (fst pos) (snd pos) (last (colors s)) = Inr (canvas s')"
    "nextPositions s' = (nextPositions s - {pos}) \<union> GetFreeNeighbours (canvas s') pos"
    "colors s' = butlast (colors s)"
    "placements s' = placements s @ [(pos, last (colors s))]"
  using assms
  by (auto simp: step_def Let_def split: sum.splits prod.splits if_splits)

lemma step_frontier_inside:
  assumes "step draw s = Inr s'" and "frontier_inside s"
  shows "frontier_inside s'"
proof -
  from assms(1) obtain pos where
    wr: "SetPixel (canvas s) (fst pos) (snd pos) (last (colors s)) = Inr (canvas s')"
    and nx: "nextPositions s' = (nextPositions s - {pos}) \<union> GetFreeNeighbours (canvas s') pos"
    by (rule step_Inr)
  show ?thesis
    unfolding frontier_inside_def
  proof
    fix q assume "q \<in> nextPositions s'"
    then consider "q \<in> nextPositions s" | "q \<in> GetFreeNeighbours (canvas s') pos"
      using nx by auto
    then show "inside (canvas s') (fst q) (snd q)"
    proof cases
      case 1
      then show ?thesis
        using assms(2) SetPixel_Inr(5) [OF wr] by (simp add: frontier_inside_def)
    next
      case 2
      then show ?thesis by (simp add: GetFreeNeighbours_iff)
    qed
  qed
qed

lemma step_finite:
  assumes "step draw s = Inr s'" and "finite (nextPositions s)"
  shows "finite (nextPositions s')"
  using assms(1)
  by (rule step_Inr) (simp add: assms(2) finite_GetFreeNeighbours)

lemma step_consistent:
  assumes "step draw s = Inr s'" and "Running s" and "consistent s"
  shows "consistent s'"
proof -
  from assms(1) obtain pos where
    pos: "pos \<in> nextPositions s"
    and wr: "SetPixel (canvas s) (fst pos) (snd pos) (last (colors s)) = Inr (canvas s')"
    and nx: "nextPositions s' = (nextPositions s - {pos}) \<union> GetFreeNeighbours (canvas s') pos"
    and cs: "colors s' = butlast (colors s)"
    by (rule step_Inr)
  from assms(2) have "last (colors s) \<in> set (colors s)"
    by (simp add: Running_def)
  with assms(3) have blue: "ch0 (last (colors s)) \<noteq> invalidColor"
    by (simp add: consistent_def)
  have marks: "blue_marks_unset (canvas s)" and unset: "frontier_unset s"
    using assms(3) by (simp_all add: consistent_def)
  have px: "GetPixel (canvas s') x y
      = (if x = fst pos \<and> y = snd pos then last (colors s) else GetPixel (canvas s) x y)" for x y
    by (rule SetPixel_Inr(4) [OF wr])
  have ins: "inside (canvas s') x y = inside (canvas s) x y" for x y
    by (rule SetPixel_Inr(5) [OF wr])
  have marks': "blue_marks_unset (canvas s')"
    using marks blue by (auto simp: blue_marks_unset_def px ins)
  have "frontier_unset s'"
    unfolding frontier_unset_def
  proof
    fix q assume "q \<in> nextPositions s'"
    then consider "q \<in> nextPositions s" "q \<noteq> pos" | "q \<in> GetFreeNeighbours (canvas s') pos"
      using nx by auto
    then show "inside (canvas s') (fst q) (snd q) \<and> GetPixel (canvas s') (fst q) (snd q) = sentinel"
    proof cases
      case 1
      then have "\<not> (fst q = fst pos \<and> snd q = snd pos)"
        by (auto simp: prod_eq_iff)
      with 1 unset show ?thesis
        by (auto simp: frontier_unset_def px ins)
    next
      case 2
      then have "inside (canvas s') (fst q) (snd q)"
        and "ch0 (GetPixel (canvas s') (fst q) (snd q)) = invalidColor"
        by (simp_all add: GetFreeNeighbours_iff)
      with marks' show ?thesis
        by (simp add: blue_marks_unset_def)
    qed
  qed
  moreover have "\<forall>c \<in> set (colors s'). ch0 c \<noteq> invalidColor"
    using assms(3) cs by (auto simp: consistent_def dest: in_set_butlastD)
  ultimately show ?thesis
    using marks' by (simp add: consistent_def)
qed

lemma reaches_consistent:
  assumes "reaches draw s t" and "consistent s"
  shows "consistent t"
  using assms by (induction rule: reaches.induct) (auto intro: step_consistent)

lemma reaches_trans:
  assumes "reaches draw s t" and "reaches draw t u"
  shows "reaches draw s u"
  using assms(2) assms(1) by (induction rule: reaches.induct) (auto intro: reaches.intros)

subsection \<open>Initialisation\<close>

lemma initPositions_2: "initPositions 2 (blank 1080 1920) = {(633, 540), (1286, 540)}"
  by (simp add: initPositions_def blank_def toInt_def)

lemma initPositions_3:
  "initPositions 3 (blank 1080 1920) = {(633, 432), (1286, 432), (960, 745)}"
  by (simp add: initPositions_def blank_def toInt_def)

lemma initPositions_4:
  "initPositions 4 (blank 1080 1920) = {(633, 388), (1286, 388), (691, 691), (1228, 691)}"
  by (simp add: initPositions_def blank_def toInt_def)

lemma plusShape_eq:
  "plusShape (x, y) = {(nx, y) | nx. \<bar>nx - x\<bar> \<le> 5} \<union> {(x, ny) | ny. \<bar>ny - y\<bar> \<le> 5}"
proof -
  have "set (map (\<lambda>nx. (nx, y)) [x - 5..x + 5]) = {(nx, y) | nx. \<bar>nx - x\<bar> \<le> 5}"
    by (auto simp: image_iff)
  moreover have "set (map (\<lambda>ny. (x, ny)) [y - 5..y + 5]) = {(x, ny) | ny. \<bar>ny - y\<bar> \<le> 5}"
    by (auto simp: image_iff)
  ultimately show ?thesis
    by (simp only: plusShape_def plusLength_def Let_def fst_conv snd_conv)
qed

lemma NonBlackPositions_eq:
  "NonBlackPositions src =
     {(x, y). 0 \<le> x \<and> x < gcols src \<and> 0 \<le> y \<and> y < grows src \<and> gray src y x \<noteq> 0}"
  by (auto simp: NonBlackPositions_def word_greater_zero_iff split: if_splits)

lemma Init_image:
  assumes "a \<noteq> ''2''" "a \<noteq> ''3''" "a \<noteq> ''4''"
  shows "Init imread (a # as) = (blank (grows (imread a)) (gcols (imread a)), NonBlackPositions (imread a))"
  using assms by (simp add: Init_def Let_def)

lemma Init_2: "Init imread (''2'' # as) = (blank 1080 1920, plusShape (633, 540) \<union> plusShape (1286, 540))"
  by (simp add: Init_def Let_def initPositions_2 Un_commute)

lemma Init_3:
  "Init imread (''3'' # as) =
     (blank 1080 1920, plusShape (633, 432) \<union> plusShape (1286, 432) \<union> plusShape (960, 745))"
  by (simp add: Init_def Let_def initPositions_3 Un_ac)

lemma Init_4:
  "Init imread (''4'' # as) =
     (blank 1080 1920,
      plusShape (633, 388) \<union> plusShape (1286, 388) \<union> plusShape (691, 691) \<union> plusShape (1228, 691))"
  by (simp add: Init_def Let_def initPositions_4 Un_ac)

lemma Init_cases:
  obtains "args = []" "Init imread args = (blank 0 0, {})"
  | a as where "args = a # as" "a \<noteq> ''2''" "a \<noteq> ''3''" "a \<noteq> ''4''"
      "Init imread args = (blank (grows (imread a)) (gcols (imread a)), NonBlackPositions (imread a))"
  | as where "args = ''2'' # as"
      "Init imread args = (blank 1080 1920, plusShape (633, 540) \<union> plusShape (1286, 540))"
  | as where "args = ''3'' # as"
      "Init imread args =
        (blank 1080 1920, plusShape (633, 432) \<union> plusShape (1286, 432) \<union> plusShape (960, 745))"
  | as where "args = ''4'' # as"
      "Init imread args =
        (blank 1080 1920,
         plusShape (633, 388) \<union> plusShape (1286, 388) \<union> plusShape (691, 691) \<union> plusShape (1228, 691))"
proof (cases args)
  case Nil
  then show ?thesis using that(1) by (simp add: Init_def)
next
  case (Cons a as)
  then show ?thesis
    using that(2) [of a as] that(3) [of as] that(4) [of as] that(5) [of as]
      Init_image [of a imread as] Init_2 [of imread as] Init_3 [of imread as] Init_4 [of imread as]
    by blast
qed

lemma Init_blank: "\<exists>r c. fst (Init imread args) = blank r c"
  by (rule Init_cases [of args imread]) auto

lemma Init_finite: "finite (snd (Init imread args))"
  by (rule Init_cases [of args imread])
    (auto simp: plusShape_def NonBlackPositions_def Let_def)

lemma plusShape_inside:
  assumes "q \<in> plusShape (x, y)" and "5 \<le> x" "x + 5 < c" "5 \<le> y" "y + 5 < r"
  shows "inside (blank r c) (fst q) (snd q)"
  using assms by (auto simp: plusShape_eq inside_def blank_def)

lemma Init_inside:
  assumes "q \<in> snd (Init imread args)"
  shows "inside (fst (Init imread args)) (fst q) (snd q)"
proof (rule Init_cases [of args imread])
  assume "Init imread args = (blank 0 0, {})"
  with assms show ?thesis by simp
next
  fix a as
  assume "Init imread args
      = (blank (grows (imread a)) (gcols (imread a)), NonBlackPositions (imread a))"
  with assms show ?thesis
    by (auto simp: NonBlackPositions_eq inside_def blank_def)
next
  fix as
  assume "Init imread args = (blank 1080 1920, plusShape (633, 540) \<union> plusShape (1286, 540))"
  with assms show ?thesis
    by (auto intro: plusShape_inside)
next
  fix as
  assume "Init imread args
      = (blank 1080 1920, plusShape (633, 432) \<union> plusShape (1286, 432) \<union> plusShape (960, 745))"
  with assms show ?thesis
    by (auto intro: plusShape_inside)
next
  fix as
  assume "Init imread args
      = (blank 1080 1920,
         plusShape (633, 388) \<union> plusShape (1286, 388) \<union> plusShape (691, 691) \<union> plusShape (1228, 691))"
  with assms show ?thesis
    by (auto intro: plusShape_inside)
qed

text \<open>
  C4, as the code has it. Before the first iteration the canvas is entirely sentinel.
  The frontier is not the neighbour expansion of the seed positions: for the arguments
  \<^verbatim>\<open>2\<close>, \<^verbatim>\<open>3\<close> and \<^verbatim>\<open>4\<close> it is the union, over the seed positions, of the horizontal and
  the vertical segment of half-length 5 through the seed; for any other argument it is
  the set of the non-black pixels of the image read, that is the seed positions
  themselves.
\<close>

theorem Init_frontier:
  "(\<exists>r c. fst (Init imread args) = blank r c) \<and>
   pixels (blank r c) y x = sentinel \<and>
   Init imread (''2'' # as) = (blank 1080 1920, (\<Union>seed \<in> {(633, 540), (1286, 540)}. plusShape seed)) \<and>
   Init imread (''3'' # as)
     = (blank 1080 1920, (\<Union>seed \<in> {(633, 432), (1286, 432), (960, 745)}. plusShape seed)) \<and>
   Init imread (''4'' # as)
     = (blank 1080 1920,
        (\<Union>seed \<in> {(633, 388), (1286, 388), (691, 691), (1228, 691)}. plusShape seed)) \<and>
   (a \<noteq> ''2'' \<and> a \<noteq> ''3'' \<and> a \<noteq> ''4'' \<longrightarrow>
      Init imread (a # as)
        = (blank (grows (imread a)) (gcols (imread a)), NonBlackPositions (imread a))) \<and>
   plusShape (sx, sy) = {(nx, sy) | nx. \<bar>nx - sx\<bar> \<le> 5} \<union> {(sx, ny) | ny. \<bar>ny - sy\<bar> \<le> 5} \<and>
   NonBlackPositions src =
     {(x, y). 0 \<le> x \<and> x < gcols src \<and> 0 \<le> y \<and> y < grows src \<and> gray src y x \<noteq> 0}"
  using Init_blank [of imread args] Init_2 [of imread as] Init_3 [of imread as]
    Init_4 [of imread as] Init_image [of a imread as] plusShape_eq [of sx sy]
    NonBlackPositions_eq [of src]
  by (simp add: blank_def Un_ac)

theorem Init_frontier_witness:
  "''seed.png'' \<noteq> ''2'' \<and> ''seed.png'' \<noteq> ''3'' \<and> ''seed.png'' \<noteq> ''4'' \<and>
   Init one_pixel [''seed.png''] = (blank 1 1, {(0, 0)})"
proof -
  have "NonBlackPositions (one_pixel ''seed.png'') = {(0, 0)}"
    by (simp add: NonBlackPositions_def one_pixel_def)
  then show ?thesis
    using Init_frontier [of one_pixel "[]" 0 0 0 0 "[]" "''seed.png''" 0 0 "one_pixel ''seed.png''"]
    by (simp add: one_pixel_def)
qed

text \<open>
  The claim as stated fails for the argument \<^verbatim>\<open>2\<close>: the frontier is not the union of
  \<^verbatim>\<open>GetFreeNeighbours\<close> over the seed positions. The position (628, 540) is in the
  frontier, five columns away from the nearest seed position.
\<close>

theorem Init_frontier_counterexample:
  "snd (Init one_pixel [''2''])
     \<noteq> (\<Union>seed \<in> initPositions 2 (fst (Init one_pixel [''2''])).
          GetFreeNeighbours (fst (Init one_pixel [''2''])) seed)"
proof -
  have "(628, 540) \<in> snd (Init one_pixel [''2''])"
    by (simp add: Init_2 plusShape_eq)
  moreover have "(628, 540) \<notin> (\<Union>seed \<in> initPositions 2 (fst (Init one_pixel [''2''])).
          GetFreeNeighbours (fst (Init one_pixel [''2''])) seed)"
    by (simp add: Init_2 initPositions_2 GetFreeNeighbours_iff chebyshev_def spread_def)
  ultimately show ?thesis by blast
qed

subsection \<open>A run on two cells\<close>

lemma SetPixel_paint: "inside im x y \<Longrightarrow> SetPixel im x y c = Inr (paint im (x, y) c)"
  by (simp add: SetPixel_def paint_def)

lemma FindBestPos_two_cells:
  "FindBestPos reversing (blank 1 2) {(0, 0), (1, 0)} color g = Inr ((1, 0), Suc g)"
  by (simp add: FindBestPos_def shuffle_reversing sorted_two_cells ColorPosDiff_blank)

lemma FindBestPos_single:
  "FindBestPos reversing im {p} color g = Inr (p, Suc g)"
  by (simp add: FindBestPos_def shuffle_reversing)

lemma free_after_one:
  "GetFreeNeighbours (paint (blank 1 2) (1, 0) (Color 4 4 4)) (1, 0) = {(0, 0)}"
  by (auto simp: GetFreeNeighbours_iff paint_def blank_def inside_def GetPixel_def
      chebyshev_def spread_def sentinel_def invalidColor_def split: if_splits)

lemma free_after_two:
  "GetFreeNeighbours (paint (paint (blank 1 2) (1, 0) (Color 4 4 4)) (0, 0) (Color 8 8 8)) (0, 0)
     = {}"
  by (auto simp: GetFreeNeighbours_iff paint_def blank_def inside_def GetPixel_def
      chebyshev_def spread_def sentinel_def invalidColor_def split: if_splits)

lemma step_two_cells: "step reversing two_cells = Inr after_one"
proof -
  have "inside (blank 1 2) 1 0" by (simp add: inside_def blank_def)
  moreover have "{(0 :: int, 0 :: int), (1, 0)} - {(1, 0)} \<union> {(0, 0)} = {(0, 0)}"
    by auto
  ultimately show ?thesis
    by (simp add: step_def two_cells_def after_one_def FindBestPos_two_cells SetPixel_paint
        free_after_one saveEveryNFrames_def Let_def)
qed

lemma step_after_one: "step reversing after_one = Inr after_two"
proof -
  have "inside (paint (blank 1 2) (1, 0) (Color 4 4 4)) 0 0"
    by (simp add: inside_def blank_def paint_def)
  then show ?thesis
    by (simp add: step_def after_one_def after_two_def FindBestPos_single SetPixel_paint
        free_after_two saveEveryNFrames_def Let_def)
qed

lemma Running_two_cells: "Running two_cells" and Running_after_one: "Running after_one"
  and not_Running_after_two: "\<not> Running after_two"
  by (simp_all add: Running_def two_cells_def after_one_def after_two_def)

lemma reaches_after_one: "reaches reversing two_cells after_one"
  by (rule reaches.iteration [OF reaches.here Running_two_cells step_two_cells])


lemma grow_two_cells: "grow reversing two_cells = Inr after_two"
proof -
  have "grow reversing after_two = Inr after_two"
    using not_Running_after_two by (subst grow.simps) simp
  then have "grow reversing after_one = Inr after_two"
    using Running_after_one step_after_one by (subst grow.simps) simp
  then show ?thesis
    using Running_two_cells step_two_cells by (subst grow.simps) simp
qed

lemma consistent_two_cells: "consistent two_cells"
  by (auto simp: consistent_def frontier_unset_def blue_marks_unset_def two_cells_def blank_def
      inside_def GetPixel_def invalidColor_def)

subsection \<open>Hue and the sorted palette\<close>

lemma bgr2hsv_total: "\<exists>hsv. bgr2hsv bgr = Inr hsv"
proof -
  have "max3 (ch2 bgr) (ch1 bgr) (ch0 bgr) = ch2 bgr
      \<or> max3 (ch2 bgr) (ch1 bgr) (ch0 bgr) = ch1 bgr
      \<or> max3 (ch2 bgr) (ch1 bgr) (ch0 bgr) = ch0 bgr"
    unfolding max3_def max_def by auto
  then show ?thesis
    by (auto simp: bgr2hsv_def Let_def)
qed

lemma hue_less_hue: "hue_less a b \<longleftrightarrow> hue a < hue b"
  using bgr2hsv_total [of a] bgr2hsv_total [of b]
  by (auto simp: hue_less_def hue_def)

lemma hue_gray: "hue (Color c c c) = 0"
  by (simp add: hue_def bgr2hsv_def Let_def max3_def min3_def)

lemma sorts_by_hue:
  assumes "sorts_by hue_less srt"
  shows "mset (srt hue_less xs) = mset xs" and "sorted (map hue (srt hue_less xs))"
proof -
  from assms show "mset (srt hue_less xs) = mset xs"
    by (simp add: sorts_by_def)
  from assms have "sorted_wrt (\<lambda>a b. \<not> hue_less b a) (srt hue_less xs)"
    by (simp add: sorts_by_def)
  then have "sorted_wrt (\<lambda>a b. hue a \<le> hue b) (srt hue_less xs)"
    by (simp add: hue_less_hue not_less)
  then show "sorted (map hue (srt hue_less xs))"
    by (simp add: sorted_map)
qed

lemma mset_insert_before: "mset (insert_before cmp x ys) = add_mset x (mset ys)"
  by (induction ys) simp_all

lemma mset_front_insertion_sort: "mset (front_insertion_sort cmp xs) = mset xs"
  unfolding front_insertion_sort_def
  by (induction xs rule: rev_induct) (simp_all add: mset_insert_before)

lemma set_insert_before: "set (insert_before cmp x ys) = insert x (set ys)"
  by (induction ys) auto

lemma sorted_insert_before:
  fixes key :: "'a \<Rightarrow> real"
  assumes "\<And>a b. cmp a b \<longleftrightarrow> key a < key b" and "sorted (map key ys)"
  shows "sorted (map key (insert_before cmp x ys))"
  using assms(2)
  by (induction ys) (auto simp: assms(1) set_insert_before)

lemma sorted_front_insertion_sort:
  fixes key :: "'a \<Rightarrow> real"
  assumes "\<And>a b. cmp a b \<longleftrightarrow> key a < key b"
  shows "sorted (map key (front_insertion_sort cmp xs))"
  unfolding front_insertion_sort_def
  by (induction xs rule: rev_induct) (simp_all add: sorted_insert_before [OF assms])

lemma sorts_by_front_insertion_sort: "sorts_by hue_less front_insertion_sort"
proof -
  have "sorted_wrt (\<lambda>a b. \<not> hue_less b a) (front_insertion_sort hue_less xs)" for xs
    using sorted_front_insertion_sort [of hue_less hue xs]
    by (simp add: hue_less_hue sorted_map not_less)
  then show ?thesis
    by (simp add: sorts_by_def mset_front_insertion_sort)
qed

lemma filter_insert_before:
  fixes key :: "'a \<Rightarrow> real"
  assumes "\<And>a b. cmp a b \<longleftrightarrow> key a < key b"
  shows "filter (\<lambda>y. key y = k) (insert_before cmp x ys)
      = (if key x = k then x # filter (\<lambda>y. key y = k) ys else filter (\<lambda>y. key y = k) ys)"
  by (induction ys) (auto simp: assms)

lemma filter_front_insertion_sort:
  fixes key :: "'a \<Rightarrow> real"
  assumes "\<And>a b. cmp a b \<longleftrightarrow> key a < key b"
  shows "filter (\<lambda>y. key y = k) (front_insertion_sort cmp xs) = rev (filter (\<lambda>y. key y = k) xs)"
  unfolding front_insertion_sort_def
  by (induction xs rule: rev_induct) (simp_all add: filter_insert_before [OF assms])

lemma rev_neq_two:
  assumes "a \<in> set xs" "b \<in> set xs" "a \<noteq> b" "distinct xs"
  shows "rev xs \<noteq> xs"
proof
  assume r: "rev xs = xs"
  from assms(1) obtain y ys where xs: "xs = y # ys"
    by (cases xs) auto
  with assms have ys: "ys \<noteq> []" by auto
  then have "last xs \<in> set ys"
    by (simp add: xs)
  moreover have "y \<notin> set ys"
    using assms(4) by (simp add: xs)
  moreover have "hd (rev xs) = last xs"
    by (simp add: hd_rev xs)
  ultimately show False
    using r by (simp add: xs)
qed

lemma start_fields:
  "canvas (start draw srt mt19937 init) = fst init"
  "nextPositions (start draw srt mt19937 init) = snd init"
  "colors (start draw srt mt19937 init)
     = srt hue_less (fst (shuffle draw generated_colors (mt19937 1)))"
  "gen (start draw srt mt19937 init) = snd (shuffle draw generated_colors (mt19937 1))"
  "placements (start draw srt mt19937 init) = []"
  by (simp_all add: start_def split_beta)

lemma start_colors_mset:
  assumes "permuting draw" and "sorts_by hue_less srt"
  shows "mset (colors (start draw srt mt19937 init)) = mset generated_colors"
  using sorts_by_hue(1) [OF assms(2)] mset_shuffle [OF assms(1)]
  by (simp add: start_fields)

lemma fst_shuffle_reversing: "fst (shuffle reversing xs g) = rev xs"
  by (simp add: shuffle_reversing)

lemma gray_generated: "Color 4 4 4 \<in> set generated_colors" "Color 8 8 8 \<in> set generated_colors"
proof -
  have "Color 4 4 4 = mkColor 1 2 2" and "Color 8 8 8 = mkColor 2 4 4"
    by (simp_all add: mkColor_def colMult_def)
  moreover have "mkColor 1 2 2 \<in> set generated_colors" "mkColor 2 4 4 \<in> set generated_colors"
    unfolding generated_colors_iff
    by (rule exI [of _ 1], rule exI [of _ 2], rule exI [of _ 2], simp,
        rule exI [of _ 2], rule exI [of _ 4], rule exI [of _ 4], simp)
  ultimately show "Color 4 4 4 \<in> set generated_colors" "Color 8 8 8 \<in> set generated_colors"
    by (simp_all only:)
qed

text \<open>
  C3, as the code has it. With a shuffle that permutes and a sort that meets the promise
  of \<^verbatim>\<open>std::sort\<close>, the palette is a permutation of the shuffled sequence (hence of the
  generated colours) in which the hue never decreases; the conversion to hue never
  reaches its assertion. Nothing is promised about the order of colours of equal hue.
\<close>

theorem palette_sorted_by_hue:
  assumes "permuting draw" and "sorts_by hue_less srt"
  shows "mset (colors (start draw srt mt19937 init))
           = mset (fst (shuffle draw generated_colors (mt19937 1)))
         \<and> mset (colors (start draw srt mt19937 init)) = mset generated_colors
         \<and> sorted (map hue (colors (start draw srt mt19937 init)))
         \<and> (\<exists>hsv. bgr2hsv bgr = Inr hsv \<and> hue bgr = fst hsv)"
proof -
  obtain hsv where "bgr2hsv bgr = Inr hsv"
    using bgr2hsv_total by blast
  then have "\<exists>hsv. bgr2hsv bgr = Inr hsv \<and> hue bgr = fst hsv"
    by (simp add: hue_def)
  then show ?thesis
    using sorts_by_hue [OF assms(2)] mset_shuffle [OF assms(1)]
    by (simp add: start_fields)
qed

theorem palette_sorted_by_hue_witness:
  "permuting reversing \<and> sorts_by hue_less front_insertion_sort \<and>
   mset (colors (start reversing front_insertion_sort (\<lambda>seed. seed) (blank 1 1, {(0, 0)})))
     = mset generated_colors \<and>
   sorted (map hue (colors (start reversing front_insertion_sort (\<lambda>seed. seed) (blank 1 1, {(0, 0)})))) \<and>
   bgr2hsv (Color 4 4 4) = Inr (0, 0, 0)"
proof -
  have "bgr2hsv (Color 4 4 4) = Inr (0, 0, 0)"
    by (simp add: bgr2hsv_def Let_def max3_def min3_def)
  then show ?thesis
    using palette_sorted_by_hue [OF permuting_reversing sorts_by_front_insertion_sort,
        of "\<lambda>seed. seed" "(blank 1 1, {(0, 0)})" "Color 4 4 4"]
      permuting_reversing sorts_by_front_insertion_sort
    by (simp add: fst_shuffle_reversing)
qed

text \<open>
  The claim as stated fails: \<open>front_insertion_sort\<close> meets the promise of \<^verbatim>\<open>std::sort\<close>,
  and with it the palette is not a stable reorder of the shuffled sequence. The greys
  \<open>Color 4 4 4\<close> and \<open>Color 8 8 8\<close> both have hue 0 and change their relative order.
\<close>

theorem palette_sorted_by_hue_counterexample:
  "sorts_by hue_less front_insertion_sort \<and> permuting reversing \<and>
   \<not> stable_reorder hue (fst (shuffle reversing generated_colors 1))
       (colors (start reversing front_insertion_sort (\<lambda>seed. seed) (blank 1 1, {(0, 0)})))"
proof -
  let ?sh = "fst (shuffle reversing generated_colors (1 :: nat))"
  let ?grey = "filter (\<lambda>c. hue c = 0) ?sh"
  have "distinct ?grey"
    by (simp add: fst_shuffle_reversing distinct_generated_colors)
  moreover have "Color 4 4 4 \<in> set ?grey" and "Color 8 8 8 \<in> set ?grey"
    using gray_generated by (simp_all add: fst_shuffle_reversing hue_gray)
  ultimately have "rev ?grey \<noteq> ?grey"
    by (intro rev_neq_two [of "Color 4 4 4" _ "Color 8 8 8"]) simp_all
  moreover have "filter (\<lambda>c. hue c = 0) (front_insertion_sort hue_less ?sh) = rev ?grey"
    by (rule filter_front_insertion_sort) (rule hue_less_hue)
  ultimately have "filter (\<lambda>c. hue c = 0) (front_insertion_sort hue_less ?sh) \<noteq> ?grey"
    by (simp only: not_False_eq_True)
  then have "\<not> stable_reorder hue ?sh (front_insertion_sort hue_less ?sh)"
    unfolding stable_reorder_def by blast
  then show ?thesis
    using sorts_by_front_insertion_sort permuting_reversing
    by (simp add: start_fields)
qed

subsection \<open>The initial state\<close>

lemma start_consistent:
  assumes "permuting draw" and "sorts_by hue_less srt"
  shows "consistent (start draw srt mt19937 (Init imread args))"
proof -
  obtain r c where bl: "fst (Init imread args) = blank r c"
    using Init_blank by blast
  have px: "GetPixel (blank r c) x y = sentinel" for x y
    by (simp add: GetPixel_def blank_def)
  have "frontier_unset (start draw srt mt19937 (Init imread args))"
    using Init_inside [of _ imread args]
    by (auto simp: frontier_unset_def start_fields bl px)
  moreover have "blue_marks_unset (blank r c)"
    by (simp add: blue_marks_unset_def px)
  moreover have "ch0 c \<noteq> invalidColor"
    if "c \<in> set (colors (start draw srt mt19937 (Init imread args)))" for c
  proof -
    from that have "c \<in> set generated_colors"
      using mset_eq_setD [OF start_colors_mset [OF assms]] by blast
    from generated_colors_channels(1) [OF this] show ?thesis
      by (auto simp: invalidColor_def)
  qed
  ultimately show ?thesis
    by (simp add: consistent_def start_fields bl)
qed

lemma start_record_ok:
  assumes "permuting draw" and "sorts_by hue_less srt"
  shows "record_ok (start draw srt mt19937 init)"
proof -
  have "distinct (colors (start draw srt mt19937 init))"
    using start_colors_mset [OF assms, of mt19937 init] distinct_generated_colors
    by (metis mset_eq_imp_distinct_iff)
  then show ?thesis
    by (simp add: record_ok_def start_fields)
qed

subsection \<open>Invariants of the run\<close>

lemma consistent_frontier_inside: "consistent s \<Longrightarrow> frontier_inside s"
  by (simp add: consistent_def frontier_unset_def frontier_inside_def)

lemma step_written:
  assumes "step draw s = Inr s'" and "Running s" and "consistent s"
  obtains pos where "pos \<in> nextPositions s" "pos \<notin> nextPositions s'"
    "placements s' = placements s @ [(pos, last (colors s))]"
    "GetPixel (canvas s) (fst pos) (snd pos) = sentinel"
    "ch0 (last (colors s)) \<noteq> invalidColor"
    "\<forall>x y. GetPixel (canvas s') x y
       = (if x = fst pos \<and> y = snd pos then last (colors s) else GetPixel (canvas s) x y)"
proof -
  from assms(1) obtain pos where
    pos: "pos \<in> nextPositions s"
    and wr: "SetPixel (canvas s) (fst pos) (snd pos) (last (colors s)) = Inr (canvas s')"
    and nx: "nextPositions s' = (nextPositions s - {pos}) \<union> GetFreeNeighbours (canvas s') pos"
    and pl: "placements s' = placements s @ [(pos, last (colors s))]"
    by (rule step_Inr)
  from assms(2) have "last (colors s) \<in> set (colors s)"
    by (simp add: Running_def)
  with assms(3) have blue: "ch0 (last (colors s)) \<noteq> invalidColor"
    by (simp add: consistent_def)
  have px: "GetPixel (canvas s') x y
      = (if x = fst pos \<and> y = snd pos then last (colors s) else GetPixel (canvas s) x y)" for x y
    by (rule SetPixel_Inr(4) [OF wr])
  have "pos \<notin> GetFreeNeighbours (canvas s') pos"
    using blue by (simp add: GetFreeNeighbours_iff px)
  then have "pos \<notin> nextPositions s'"
    by (simp add: nx)
  moreover have "GetPixel (canvas s) (fst pos) (snd pos) = sentinel"
    using assms(3) pos by (simp add: consistent_def frontier_unset_def)
  ultimately show ?thesis
    using that [of pos] pos pl blue px by blast
qed

lemma step_record_ok:
  assumes "step draw s = Inr s'" and "Running s" and "consistent s" and "record_ok s"
  shows "record_ok s'"
proof -
  let ?c = "last (colors s)"
  from assms(1-3) obtain pos where
    pl: "placements s' = placements s @ [(pos, ?c)]"
    and unset: "GetPixel (canvas s) (fst pos) (snd pos) = sentinel"
    and blue: "ch0 ?c \<noteq> invalidColor"
    and px: "\<forall>x y. GetPixel (canvas s') x y
       = (if x = fst pos \<and> y = snd pos then ?c else GetPixel (canvas s) x y)"
    by (rule step_written)
  have cs: "colors s' = butlast (colors s)"
    by (rule step_colors [OF assms(1)])
  from assms(2) have ne: "colors s \<noteq> []"
    by (simp add: Running_def)
  have old: "GetPixel (canvas s) (fst (fst pc)) (snd (fst pc)) = snd pc"
      "ch0 (snd pc) \<noteq> invalidColor" "snd pc \<notin> set (colors s)"
    if "pc \<in> set (placements s)" for pc
    using assms(4) that by (simp_all add: record_ok_def)
  have fresh_pos: "pos \<notin> fst ` set (placements s)"
  proof
    assume "pos \<in> fst ` set (placements s)"
    then obtain pc where "pc \<in> set (placements s)" "fst pc = pos" by auto
    with old(1,2) [of pc] unset have "ch0 sentinel \<noteq> invalidColor"
      by simp
    then show False
      by (simp add: sentinel_def)
  qed
  have fresh_col: "?c \<notin> snd ` set (placements s)"
    using old(3) ne by fastforce
  have "distinct (colors s)"
    using assms(4) by (simp add: record_ok_def)
  then have dc: "distinct (colors s')" and last_gone: "?c \<notin> set (colors s')"
    using ne by (simp_all add: cs distinct_butlast)
      (metis append_butlast_last_id distinct_append disjoint_iff list.set_intros(1) ne)
  have "GetPixel (canvas s') (fst (fst pc)) (snd (fst pc)) = snd pc \<and>
        ch0 (snd pc) \<noteq> invalidColor \<and> snd pc \<notin> set (colors s')"
    if "pc \<in> set (placements s')" for pc
  proof (cases "pc = (pos, ?c)")
    case True
    then show ?thesis using blue last_gone by (simp add: px)
  next
    case False
    with that have mem: "pc \<in> set (placements s)" by (simp add: pl)
    then have "fst pc \<noteq> pos" using fresh_pos by auto
    then have "\<not> (fst (fst pc) = fst pos \<and> snd (fst pc) = snd pos)"
      by (auto simp: prod_eq_iff)
    with old [OF mem] show ?thesis
      by (auto simp: px cs dest: in_set_butlastD)
  qed
  moreover have "distinct (map fst (placements s'))" "distinct (map snd (placements s'))"
    using assms(4) fresh_pos fresh_col by (simp_all add: record_ok_def pl)
  ultimately show ?thesis
    using dc by (simp add: record_ok_def)
qed

lemma reaches_record_ok:
  assumes "reaches draw s t" and "consistent s" and "record_ok s"
  shows "record_ok t"
  using assms
proof (induction rule: reaches.induct)
  case (here s)
  then show ?case by simp
next
  case (iteration s t u)
  then show ?case
    using step_record_ok reaches_consistent by blast
qed

lemma reaches_permanent:
  assumes "reaches draw s t" and "consistent s" and "GetPixel (canvas s) x y \<noteq> sentinel"
  shows "GetPixel (canvas t) x y = GetPixel (canvas s) x y"
  using assms
proof (induction rule: reaches.induct)
  case (here s)
  then show ?case by simp
next
  case (iteration s t u)
  then have eq: "GetPixel (canvas t) x y = GetPixel (canvas s) x y" by simp
  have "consistent t"
    using iteration.hyps(1) iteration.prems(1) by (rule reaches_consistent)
  with iteration.hyps(3,2) obtain pos where
    "GetPixel (canvas t) (fst pos) (snd pos) = sentinel"
    "\<forall>x y. GetPixel (canvas u) x y
       = (if x = fst pos \<and> y = snd pos then last (colors t) else GetPixel (canvas t) x y)"
    by (rule step_written)
  with eq iteration.prems(2) show ?case by auto
qed

text \<open>
  C5. In every state of a run that starts in a consistent state, every frontier position
  is on the canvas and still unset there: the frontier and the painted cells are
  disjoint. One iteration writes its colour at a frontier position, which leaves the
  frontier in the same iteration, and every position that enters the frontier is on the
  canvas and unset. The state in which \<^verbatim>\<open>main\<close> enters the loop is consistent.
\<close>

theorem frontier_stays_unset:
  "(consistent s0 \<and> reaches draw s0 s \<longrightarrow>
      frontier_unset s \<and>
      nextPositions s \<inter> {p. GetPixel (canvas s) (fst p) (snd p) \<noteq> sentinel} = {}) \<and>
   (consistent u \<and> Running u \<and> step draw u = Inr u' \<longrightarrow>
      (\<exists>pos. pos \<in> nextPositions u \<and> pos \<notin> nextPositions u' \<and>
         placements u' = placements u @ [(pos, last (colors u))] \<and>
         GetPixel (canvas u') (fst pos) (snd pos) = last (colors u) \<and>
         (\<forall>q \<in> nextPositions u' - nextPositions u.
            inside (canvas u') (fst q) (snd q) \<and>
            GetPixel (canvas u') (fst q) (snd q) = sentinel))) \<and>
   (permuting draw' \<and> sorts_by hue_less srt \<longrightarrow>
      consistent (start draw' srt mt19937 (Init imread args)))"
proof (intro conjI impI)
  assume "consistent s0 \<and> reaches draw s0 s"
  then have "consistent s" using reaches_consistent by blast
  then show "frontier_unset s" by (simp add: consistent_def)
  then show "nextPositions s \<inter> {p. GetPixel (canvas s) (fst p) (snd p) \<noteq> sentinel} = {}"
    by (auto simp: frontier_unset_def)
next
  assume a: "consistent u \<and> Running u \<and> step draw u = Inr u'"
  then have st: "step draw u = Inr u'" "Running u" "consistent u"
    by simp_all
  from st obtain pos where pos: "pos \<in> nextPositions u" "pos \<notin> nextPositions u'"
    "placements u' = placements u @ [(pos, last (colors u))]"
    "\<forall>x y. GetPixel (canvas u') x y
       = (if x = fst pos \<and> y = snd pos then last (colors u) else GetPixel (canvas u) x y)"
    by (rule step_written)
  from a have "frontier_unset u'"
    using step_consistent [of draw u u'] by (simp add: consistent_def)
  then have "\<forall>q \<in> nextPositions u' - nextPositions u.
      inside (canvas u') (fst q) (snd q) \<and> GetPixel (canvas u') (fst q) (snd q) = sentinel"
    by (simp add: frontier_unset_def)
  with pos show "\<exists>pos. pos \<in> nextPositions u \<and> pos \<notin> nextPositions u' \<and>
         placements u' = placements u @ [(pos, last (colors u))] \<and>
         GetPixel (canvas u') (fst pos) (snd pos) = last (colors u) \<and>
         (\<forall>q \<in> nextPositions u' - nextPositions u.
            inside (canvas u') (fst q) (snd q) \<and>
            GetPixel (canvas u') (fst q) (snd q) = sentinel)"
    by (intro exI [of _ pos]) simp
next
  assume "permuting draw' \<and> sorts_by hue_less srt"
  then show "consistent (start draw' srt mt19937 (Init imread args))"
    by (simp add: start_consistent)
qed

theorem frontier_stays_unset_witness:
  "consistent two_cells \<and> reaches reversing two_cells after_one \<and> frontier_unset after_one \<and>
   Running two_cells \<and> step reversing two_cells = Inr after_one \<and>
   nextPositions after_one = {(0, 0)} \<and>
   permuting reversing \<and> sorts_by hue_less front_insertion_sort \<and>
   consistent (start reversing front_insertion_sort (\<lambda>seed. seed) (Init one_pixel [''2'']))"
proof -
  note inst = frontier_stays_unset [of two_cells reversing after_one two_cells after_one reversing
      front_insertion_sort "\<lambda>seed. seed" one_pixel "[''2'']"]
  have "frontier_unset after_one"
    using inst consistent_two_cells reaches_after_one by blast
  moreover have "consistent (start reversing front_insertion_sort (\<lambda>seed. seed)
      (Init one_pixel [''2'']))"
    using inst permuting_reversing sorts_by_front_insertion_sort by blast
  moreover have "nextPositions after_one = {(0, 0)}"
    by (simp add: after_one_def)
  ultimately show ?thesis
    using consistent_two_cells reaches_after_one Running_two_cells step_two_cells
      permuting_reversing sorts_by_front_insertion_sort
    by (intro conjI)
qed

text \<open>
  C6. In a run that starts in a consistent state with a duplicate-free palette and no
  placement made, no position and no colour is placed twice, every placed cell holds the
  colour placed there, and a cell that is not the sentinel keeps its value in every
  later state of the run. \<^verbatim>\<open>main\<close> enters the loop in such a state.
\<close>

theorem placements_unique_permanent:
  "(consistent s0 \<and> distinct (colors s0) \<and> placements s0 = [] \<and>
    reaches draw s0 s \<and> reaches draw s t \<longrightarrow>
      distinct (map fst (placements s)) \<and> distinct (map snd (placements s)) \<and>
      (\<forall>pc \<in> set (placements s).
         GetPixel (canvas s) (fst (fst pc)) (snd (fst pc)) = snd pc \<and> snd pc \<noteq> sentinel) \<and>
      (\<forall>x y. GetPixel (canvas s) x y \<noteq> sentinel
         \<longrightarrow> GetPixel (canvas t) x y = GetPixel (canvas s) x y)) \<and>
   (permuting draw' \<and> sorts_by hue_less srt \<longrightarrow>
      consistent (start draw' srt mt19937 (Init imread args)) \<and>
      distinct (colors (start draw' srt mt19937 (Init imread args))) \<and>
      placements (start draw' srt mt19937 (Init imread args)) = [])"
proof (intro conjI impI allI)
  assume a: "consistent s0 \<and> distinct (colors s0) \<and> placements s0 = [] \<and>
    reaches draw s0 s \<and> reaches draw s t"
  then have "record_ok s0" by (simp add: record_ok_def)
  with a have r: "record_ok s" and c: "consistent s"
    using reaches_record_ok reaches_consistent by blast+
  from r show "distinct (map fst (placements s))" "distinct (map snd (placements s))"
    by (simp_all add: record_ok_def)
  from r show "\<forall>pc \<in> set (placements s).
      GetPixel (canvas s) (fst (fst pc)) (snd (fst pc)) = snd pc \<and> snd pc \<noteq> sentinel"
    by (auto simp: record_ok_def sentinel_def)
  fix x y assume "GetPixel (canvas s) x y \<noteq> sentinel"
  with a c show "GetPixel (canvas t) x y = GetPixel (canvas s) x y"
    using reaches_permanent by blast
next
  assume a: "permuting draw' \<and> sorts_by hue_less srt"
  then show "consistent (start draw' srt mt19937 (Init imread args))"
    by (simp add: start_consistent)
  from a show "distinct (colors (start draw' srt mt19937 (Init imread args)))"
    using start_record_ok [of draw' srt mt19937 "Init imread args"] by (simp add: record_ok_def)
  show "placements (start draw' srt mt19937 (Init imread args)) = []"
    by (simp add: start_fields)
qed

theorem placements_unique_permanent_witness:
  "consistent two_cells \<and> distinct (colors two_cells) \<and> placements two_cells = [] \<and>
   reaches reversing two_cells after_one \<and> reaches reversing after_one after_two \<and>
   distinct (map fst (placements after_one)) \<and> distinct (map snd (placements after_one)) \<and>
   GetPixel (canvas after_one) 1 0 = Color 4 4 4 \<and>
   GetPixel (canvas after_two) 1 0 = Color 4 4 4 \<and>
   permuting reversing \<and> sorts_by hue_less front_insertion_sort \<and>
   distinct (colors (start reversing front_insertion_sort (\<lambda>seed. seed) (Init one_pixel [''2''])))"
proof -
  note inst = placements_unique_permanent [of two_cells reversing after_one after_two reversing
      front_insertion_sort "\<lambda>seed. seed" one_pixel "[''2'']"]
  have d: "distinct (colors two_cells)" and e: "placements two_cells = []"
    by (simp_all add: two_cells_def)
  have r: "reaches reversing after_one after_two"
    by (rule reaches.iteration [OF reaches.here Running_after_one step_after_one])
  have px: "GetPixel (canvas after_one) 1 0 = Color 4 4 4"
    by (simp add: after_one_def GetPixel_def paint_def)
  then have ns: "GetPixel (canvas after_one) 1 0 \<noteq> sentinel"
    by (simp add: sentinel_def invalidColor_def)
  have concl: "distinct (map fst (placements after_one)) \<and>
      distinct (map snd (placements after_one)) \<and>
      (\<forall>pc \<in> set (placements after_one).
         GetPixel (canvas after_one) (fst (fst pc)) (snd (fst pc)) = snd pc \<and> snd pc \<noteq> sentinel) \<and>
      (\<forall>x y. GetPixel (canvas after_one) x y \<noteq> sentinel
         \<longrightarrow> GetPixel (canvas after_two) x y = GetPixel (canvas after_one) x y)"
    using inst consistent_two_cells d e reaches_after_one r by blast
  then have "GetPixel (canvas after_two) 1 0 = Color 4 4 4"
    using ns px by metis
  moreover have "distinct (colors (start reversing front_insertion_sort (\<lambda>seed. seed)
      (Init one_pixel [''2''])))"
    using inst permuting_reversing sorts_by_front_insertion_sort by blast
  ultimately show ?thesis
    using concl consistent_two_cells d e reaches_after_one r px
      permuting_reversing sorts_by_front_insertion_sort
    by (intro conjI) blast+
qed

subsection \<open>Termination\<close>

lemma step_succeeds:
  assumes "permuting draw" and "finite (nextPositions s)" and "Running s"
    and "frontier_inside s"
  shows "\<exists>s'. step draw s = Inr s'"
proof -
  from assms(3) have ne: "nextPositions s \<noteq> {}"
    by (simp add: Running_def)
  have "\<exists>pos. FindBestPos draw (canvas s) (nextPositions s) (last (colors s)) (gen s)
        = Inr (pos, snd (draw (gen s) (card (nextPositions s)))) \<and> pos \<in> nextPositions s"
    using FindBestPos_chooses [OF assms(1,2) ne, of "last (colors s)" "gen s"] by auto
  then obtain pos where fb: "FindBestPos draw (canvas s) (nextPositions s) (last (colors s)) (gen s)
        = Inr (pos, snd (draw (gen s) (card (nextPositions s))))"
    and mem: "pos \<in> nextPositions s"
    by blast
  from mem assms(4) have "inside (canvas s) (fst pos) (snd pos)"
    by (simp add: frontier_inside_def)
  then show ?thesis
    using fb mem by (simp add: step_def Let_def SetPixel_def)
qed

lemma step_counts:
  assumes "step draw s = Inr s'" and "Running s"
  shows "Suc (length (colors s')) = length (colors s)"
    and "length (placements s') = Suc (length (placements s))"
proof -
  from assms(2) have "colors s \<noteq> []" by (simp add: Running_def)
  then show "Suc (length (colors s')) = length (colors s)"
    by (simp add: step_colors [OF assms(1)])
  from assms(1) obtain pos where "placements s' = placements s @ [(pos, last (colors s))]"
    by (rule step_Inr)
  then show "length (placements s') = Suc (length (placements s))"
    by simp
qed

lemma grow_colors_le: "grow draw s = Inr t \<Longrightarrow> length (colors t) \<le> length (colors s)"
proof (induction draw s rule: grow.induct)
  case (1 draw s)
  show ?case
  proof (cases "Running s")
    case False
    with "1.prems" show ?thesis by (simp add: grow.simps [of draw s])
  next
    case True
    with "1.prems" obtain s' where st: "step draw s = Inr s'" and g: "grow draw s' = Inr t"
      by (auto simp: grow.simps [of draw s] split: sum.splits)
    from "1.IH" [OF True st g] step_counts(1) [OF st True] show ?thesis by simp
  qed
qed

lemma grow_stops: "grow draw s = Inr s \<longleftrightarrow> \<not> Running s"
proof
  assume g: "grow draw s = Inr s"
  show "\<not> Running s"
  proof
    assume r: "Running s"
    have "grow draw s = (case step draw s of Inl e \<Rightarrow> Inl e | Inr s' \<Rightarrow> grow draw s')"
      using r by (subst grow.simps) simp
    with g have "(case step draw s of Inl e \<Rightarrow> Inl e | Inr s' \<Rightarrow> grow draw s') = Inr s"
      by (simp only:)
    then obtain s' where st: "step draw s = Inr s'" and g': "grow draw s' = Inr s"
      by (cases "step draw s") simp_all
    from grow_colors_le [OF g'] step_counts(1) [OF st r] show False by simp
  qed
next
  assume "\<not> Running s"
  then show "grow draw s = Inr s" by (simp add: grow.simps [of draw s])
qed

lemma grow_Inr:
  assumes "grow draw s = Inr t"
  shows "reaches draw s t \<and> \<not> Running t \<and>
         length (colors t) + length (placements t) = length (colors s) + length (placements s)"
  using assms
proof (induction draw s rule: grow.induct)
  case (1 draw s)
  show ?case
  proof (cases "Running s")
    case False
    with "1.prems" have "t = s" by (simp add: grow.simps [of draw s])
    with False show ?thesis by (simp add: reaches.here)
  next
    case True
    have "grow draw s = (case step draw s of Inl e \<Rightarrow> Inl e | Inr s' \<Rightarrow> grow draw s')"
      using True by (subst grow.simps) simp
    with "1.prems" have "(case step draw s of Inl e \<Rightarrow> Inl e | Inr s' \<Rightarrow> grow draw s') = Inr t"
      by (simp only:)
    then obtain s' where st: "step draw s = Inr s'" and g: "grow draw s' = Inr t"
      by (cases "step draw s") simp_all
    from "1.IH" [OF True st g]
    have t: "reaches draw s' t" "\<not> Running t"
      "length (colors t) + length (placements t) = length (colors s') + length (placements s')"
      by simp_all
    have "reaches draw s s'"
      by (rule reaches.iteration [OF reaches.here True st])
    then have "reaches draw s t"
      using t(1) by (rule reaches_trans)
    moreover have "length (colors t) + length (placements t)
        = length (colors s) + length (placements s)"
      using t(3) step_counts [OF st True] by simp
    ultimately show ?thesis using t(2) by simp
  qed
qed

lemma grow_no_error:
  assumes "permuting draw" and "finite (nextPositions s)" and "frontier_inside s"
  shows "\<exists>t. grow draw s = Inr t"
  using assms
proof (induction draw s rule: grow.induct)
  case (1 draw s)
  show ?case
  proof (cases "Running s")
    case False
    then show ?thesis
      by (simp add: grow.simps [of draw s])
  next
    case True
    from step_succeeds [OF "1.prems"(1,2) True "1.prems"(3)]
    obtain s' where st: "step draw s = Inr s'" by blast
    have "finite (nextPositions s')" and "frontier_inside s'"
      using st "1.prems" by (auto intro: step_finite step_frontier_inside)
    from "1.IH" [OF True st "1.prems"(1) this]
    obtain t where "grow draw s' = Inr t" by blast
    then have "grow draw s = Inr t"
      using True st by (simp add: grow.simps [of draw s])
    then show ?thesis by blast
  qed
qed

lemma start_frontier:
  "finite (nextPositions (start draw srt mt19937 (Init imread args)))"
  "frontier_inside (start draw srt mt19937 (Init imread args))"
  using Init_inside [of _ imread args]
  by (simp_all add: start_fields Init_finite frontier_inside_def)

lemma main_no_error:
  assumes "permuting draw"
  shows "\<exists>code fin. main draw srt mt19937 rd imread args = Inr (code, fin)"
proof -
  obtain t where "grow draw (start draw srt mt19937 (Init imread args)) = Inr t"
    using grow_no_error [OF assms start_frontier] by blast
  then show ?thesis
    by (simp add: main_def Let_def)
qed

lemma step_one_cell: "step reversing one_cell = Inr boxed_in"
proof -
  have "inside (blank 1 1) 0 0" by (simp add: inside_def blank_def)
  moreover have "GetFreeNeighbours (paint (blank 1 1) (0, 0) (Color 4 4 4)) (0, 0) = {}"
    by (auto simp: GetFreeNeighbours_iff paint_def blank_def inside_def GetPixel_def
        chebyshev_def spread_def sentinel_def invalidColor_def split: if_splits)
  ultimately show ?thesis
    by (simp add: step_def one_cell_def boxed_in_def FindBestPos_single SetPixel_paint
        saveEveryNFrames_def Let_def)
qed

text \<open>
  C8. The loop is a total function. When it returns a state, that state was reached by
  iterations of the loop body, its palette or its frontier is empty, and one placement
  was made for every colour consumed. With a shuffle that permutes and a finite frontier
  on the canvas it returns a state and no error. Each iteration takes exactly one colour
  off the palette, and the loop stops in a state exactly when the palette or the
  frontier of that state is empty: a frontier that runs out while colours remain ends the
  loop like an empty palette does. The state in which \<^verbatim>\<open>main\<close> enters the loop has a
  finite frontier on the canvas, so \<^verbatim>\<open>main\<close> ends without an error.
\<close>

theorem grow_reaches_Done:
  "(grow draw s = Inr t \<longrightarrow>
      reaches draw s t \<and> (colors t = [] \<or> nextPositions t = {}) \<and>
      length (colors t) + length (placements t) = length (colors s) + length (placements s)) \<and>
   (permuting draw \<and> finite (nextPositions s) \<and> frontier_inside s \<longrightarrow>
      (\<exists>t. grow draw s = Inr t)) \<and>
   (Running u \<and> step draw u = Inr u' \<longrightarrow> Suc (length (colors u')) = length (colors u)) \<and>
   (grow draw u = Inr u \<longleftrightarrow> colors u = [] \<or> nextPositions u = {}) \<and>
   finite (nextPositions (start draw srt mt19937 (Init imread args))) \<and>
   frontier_inside (start draw srt mt19937 (Init imread args)) \<and>
   (permuting draw \<longrightarrow> (\<exists>code fin. main draw srt mt19937 rd imread args = Inr (code, fin)))"
proof (intro conjI impI)
  assume "grow draw s = Inr t"
  from grow_Inr [OF this]
  show "reaches draw s t" and "colors t = [] \<or> nextPositions t = {}"
    and "length (colors t) + length (placements t) = length (colors s) + length (placements s)"
    by (simp_all add: Running_def)
next
  assume "permuting draw \<and> finite (nextPositions s) \<and> frontier_inside s"
  then show "\<exists>t. grow draw s = Inr t"
    using grow_no_error [of draw s] by blast
next
  assume "Running u \<and> step draw u = Inr u'"
  then show "Suc (length (colors u')) = length (colors u)"
    using step_counts(1) by blast
next
  show "grow draw u = Inr u \<longleftrightarrow> colors u = [] \<or> nextPositions u = {}"
    by (simp add: grow_stops Running_def)
next
  show "finite (nextPositions (start draw srt mt19937 (Init imread args)))"
    and "frontier_inside (start draw srt mt19937 (Init imread args))"
    by (rule start_frontier)+
next
  assume "permuting draw"
  then show "\<exists>code fin. main draw srt mt19937 rd imread args = Inr (code, fin)"
    by (rule main_no_error)
qed

theorem grow_reaches_Done_witness:
  "permuting reversing \<and> finite (nextPositions one_cell) \<and> frontier_inside one_cell \<and>
   Running one_cell \<and> step reversing one_cell = Inr boxed_in \<and>
   length (colors one_cell) = 2 \<and> length (colors boxed_in) = 1 \<and>
   grow reversing one_cell = Inr boxed_in \<and> reaches reversing one_cell boxed_in \<and>
   nextPositions boxed_in = {} \<and> colors boxed_in = [Color 8 8 8] \<and>
   placements boxed_in = [((0, 0), Color 4 4 4)]"
proof -
  note inst = grow_reaches_Done [of reversing one_cell boxed_in boxed_in one_cell
      front_insertion_sort "\<lambda>seed. seed" one_pixel "[''2'']" "0 :: nat"]
  have f: "finite (nextPositions one_cell)" and i: "frontier_inside one_cell"
    and r: "Running one_cell" and l2: "length (colors one_cell) = 2"
    by (simp_all add: one_cell_def frontier_inside_def inside_def blank_def Running_def)
  have e: "nextPositions boxed_in = {}" and c: "colors boxed_in = [Color 8 8 8]"
    and p: "placements boxed_in = [((0, 0), Color 4 4 4)]"
    by (simp_all add: boxed_in_def)
  from inst e have "grow reversing boxed_in = Inr boxed_in"
    by blast
  then have g: "grow reversing one_cell = Inr boxed_in"
    using r step_one_cell by (subst grow.simps) simp
  with inst have "reaches reversing one_cell boxed_in"
    by blast
  moreover have "length (colors boxed_in) = 1"
    by (simp add: c)
  ultimately show ?thesis
    using permuting_reversing f i r step_one_cell e c p g l2 by (intro conjI)
qed

subsection \<open>The blue channel as the mark of an unset cell\<close>

lemma GetPixel_paint:
  "GetPixel (paint im p c) x y = (if x = fst p \<and> y = snd p then c else GetPixel im x y)"
  by (simp add: paint_def GetPixel_def)

lemma inside_paint: "inside (paint im p c) x y = inside im x y"
  by (simp add: paint_def inside_def)

lemma blue_channel_only:
  assumes "ch0 c = ch0 c'"
    and "ch0 c = invalidColor"
  shows "GetFreeNeighbours (paint im p c) pos = GetFreeNeighbours (paint im p c') pos"
    and "ColorPosDiff (paint im p c) pos color = ColorPosDiff (paint im p c') pos color"
proof -
  show "GetFreeNeighbours (paint im p c) pos = GetFreeNeighbours (paint im p c') pos"
    using assms by (auto simp: GetFreeNeighbours_iff GetPixel_paint inside_paint)
  have same: "counted (paint im p c) q = counted (paint im p c') q" for q
    using assms by (simp add: counted_def GetPixel_paint inside_paint)
  have pix: "GetPixel (paint im p c) (fst q) (snd q) = GetPixel (paint im p c') (fst q) (snd q)"
    if "counted (paint im p c) q" for q
    using that assms by (auto simp: counted_def GetPixel_paint)
  have "(\<Sum>q \<in> {q \<in> set (block pos). counted (paint im p c) q}.
           ColorDiff color (GetPixel (paint im p c) (fst q) (snd q)))
      = (\<Sum>q \<in> {q \<in> set (block pos). counted (paint im p c') q}.
           ColorDiff color (GetPixel (paint im p c') (fst q) (snd q)))"
    by (rule sum.cong) (auto simp: same pix)
  then show "ColorPosDiff (paint im p c) pos color = ColorPosDiff (paint im p c') pos color"
    by (simp add: ColorPosDiff_counted same)
qed

lemma generated_blue:
  assumes "c \<in> set generated_colors"
  shows "\<exists>b. 1 \<le> b \<and> uint (ch0 c) = 4 * b"
proof -
  obtain b g r where "1 \<le> b" "b \<le> 63" "1 \<le> g" "g \<le> 127" "1 \<le> r" "r \<le> 127" "c = mkColor b g r"
    using assms generated_colors_iff by blast
  then show ?thesis
    using mkColor_channels(1) [of b g r] by blast
qed

text \<open>
  C10. \<^verbatim>\<open>GetFreeNeighbours\<close> and \<^verbatim>\<open>ColorPosDiff\<close> look at the blue channel only: a cell
  is free when its blue channel is 0, and is scored when it is not. Every generated
  colour has blue channel \<open>4 * b\<close> with \<open>b \<ge> 1\<close>, and so has every colour that \<^verbatim>\<open>main\<close>
  places. In every state of a run from a consistent state, and so in every state that
  \<^verbatim>\<open>main\<close> reaches, a cell of the canvas has blue channel 0 exactly when it is the
  sentinel. A colour with blue channel 0 written to a cell leaves \<^verbatim>\<open>GetFreeNeighbours\<close>
  and \<^verbatim>\<open>ColorPosDiff\<close> as they are with the sentinel written there, whatever its other
  channels.
\<close>

theorem blue_channel_marks_unset:
  "(q \<in> GetFreeNeighbours im pos \<longleftrightarrow>
      chebyshev pos q \<le> spread \<and> inside im (fst q) (snd q) \<and>
      ch0 (GetPixel im (fst q) (snd q)) = 0) \<and>
   ColorPosDiff im pos color =
     (\<Sum>q \<in> {q. chebyshev pos q \<le> spread \<and> inside im (fst q) (snd q) \<and>
                 ch0 (GetPixel im (fst q) (snd q)) \<noteq> 0}.
        euclidean color (GetPixel im (fst q) (snd q)))
     / (real (max (card {q. chebyshev pos q \<le> spread \<and> inside im (fst q) (snd q) \<and>
                            ch0 (GetPixel im (fst q) (snd q)) \<noteq> 0}) 1))\<^sup>2 \<and>
   (c \<in> set generated_colors \<longrightarrow> (\<exists>b. 1 \<le> b \<and> uint (ch0 c) = 4 * b) \<and> 4 \<le> uint (ch0 c)) \<and>
   (permuting draw \<and> sorts_by hue_less srt \<and>
    c \<in> set (colors (start draw srt mt19937 (Init imread args))) \<longrightarrow> 4 \<le> uint (ch0 c)) \<and>
   (consistent s0 \<and> reaches draw s0 s \<and> inside (canvas s) x y \<longrightarrow>
      (ch0 (GetPixel (canvas s) x y) = 0 \<longleftrightarrow> GetPixel (canvas s) x y = sentinel)) \<and>
   (permuting draw \<and> sorts_by hue_less srt \<and>
    reaches draw (start draw srt mt19937 (Init imread args)) s \<and> inside (canvas s) x y \<longrightarrow>
      (ch0 (GetPixel (canvas s) x y) = 0 \<longleftrightarrow> GetPixel (canvas s) x y = sentinel)) \<and>
   GetFreeNeighbours (paint im p (Color 0 gc rc)) pos = GetFreeNeighbours (paint im p sentinel) pos \<and>
   ColorPosDiff (paint im p (Color 0 gc rc)) pos color = ColorPosDiff (paint im p sentinel) pos color"
proof -
  have free: "q \<in> GetFreeNeighbours im pos \<longleftrightarrow>
      chebyshev pos q \<le> spread \<and> inside im (fst q) (snd q) \<and>
      ch0 (GetPixel im (fst q) (snd q)) = 0"
    by (simp add: GetFreeNeighbours_iff invalidColor_def)
  have "{q \<in> set (block pos). counted im q}
      = {q. chebyshev pos q \<le> spread \<and> inside im (fst q) (snd q) \<and>
            ch0 (GetPixel im (fst q) (snd q)) \<noteq> 0}"
    by (auto simp: set_block counted_def invalidColor_def)
  then have score: "ColorPosDiff im pos color =
     (\<Sum>q \<in> {q. chebyshev pos q \<le> spread \<and> inside im (fst q) (snd q) \<and>
                 ch0 (GetPixel im (fst q) (snd q)) \<noteq> 0}.
        euclidean color (GetPixel im (fst q) (snd q)))
     / (real (max (card {q. chebyshev pos q \<le> spread \<and> inside im (fst q) (snd q) \<and>
                            ch0 (GetPixel im (fst q) (snd q)) \<noteq> 0}) 1))\<^sup>2"
    using ColorPosDiff_counted [of im pos color] by (simp only: ColorDiff_euclidean)
  have gen: "(\<exists>b. 1 \<le> b \<and> uint (ch0 c) = 4 * b) \<and> 4 \<le> uint (ch0 c)"
    if "c \<in> set generated_colors"
    using generated_blue [OF that] by auto
  have pal: "4 \<le> uint (ch0 c)"
    if "permuting draw \<and> sorts_by hue_less srt \<and>
        c \<in> set (colors (start draw srt mt19937 (Init imread args)))"
  proof -
    from that have "c \<in> set generated_colors"
      using mset_eq_setD [OF start_colors_mset [of draw srt mt19937 "Init imread args"]] by blast
    then show ?thesis using gen by blast
  qed
  have marks: "ch0 (GetPixel (canvas s) x y) = 0 \<longleftrightarrow> GetPixel (canvas s) x y = sentinel"
    if "consistent s0 \<and> reaches draw s0 s \<and> inside (canvas s) x y" for s0
  proof -
    from that have "blue_marks_unset (canvas s)"
      using reaches_consistent [of draw s0 s] by (simp add: consistent_def)
    with that show ?thesis
      by (auto simp: blue_marks_unset_def invalidColor_def sentinel_def)
  qed
  have run: "ch0 (GetPixel (canvas s) x y) = 0 \<longleftrightarrow> GetPixel (canvas s) x y = sentinel"
    if "permuting draw \<and> sorts_by hue_less srt \<and>
        reaches draw (start draw srt mt19937 (Init imread args)) s \<and> inside (canvas s) x y"
    using that marks [of "start draw srt mt19937 (Init imread args)"]
      start_consistent [of draw srt mt19937 imread args] by blast
  have same: "GetFreeNeighbours (paint im p (Color 0 gc rc)) pos
        = GetFreeNeighbours (paint im p sentinel) pos"
      "ColorPosDiff (paint im p (Color 0 gc rc)) pos color
        = ColorPosDiff (paint im p sentinel) pos color"
    by (rule blue_channel_only; simp add: sentinel_def invalidColor_def)+
  have gen': "c \<in> set generated_colors \<longrightarrow>
      (\<exists>b. 1 \<le> b \<and> uint (ch0 c) = 4 * b) \<and> 4 \<le> uint (ch0 c)"
    using gen by (rule impI)
  have pal': "permuting draw \<and> sorts_by hue_less srt \<and>
      c \<in> set (colors (start draw srt mt19937 (Init imread args))) \<longrightarrow> 4 \<le> uint (ch0 c)"
    using pal by (rule impI)
  have marks': "consistent s0 \<and> reaches draw s0 s \<and> inside (canvas s) x y \<longrightarrow>
      (ch0 (GetPixel (canvas s) x y) = 0 \<longleftrightarrow> GetPixel (canvas s) x y = sentinel)"
    using marks [of s0] by (rule impI)
  have run': "permuting draw \<and> sorts_by hue_less srt \<and>
      reaches draw (start draw srt mt19937 (Init imread args)) s \<and> inside (canvas s) x y \<longrightarrow>
      (ch0 (GetPixel (canvas s) x y) = 0 \<longleftrightarrow> GetPixel (canvas s) x y = sentinel)"
    using run by (rule impI)
  from free score gen' pal' marks' run' same show ?thesis
    by (intro conjI)
qed

theorem blue_channel_marks_unset_witness:
  "(0, 0) \<in> GetFreeNeighbours (canvas after_one) (1, 0) \<and>
   Color 4 2 2 \<in> set generated_colors \<and> 4 \<le> uint (ch0 (Color 4 2 2)) \<and>
   permuting reversing \<and> sorts_by hue_less front_insertion_sort \<and>
   Color 4 2 2 \<in> set (colors (start reversing front_insertion_sort (\<lambda>seed. seed)
       (Init one_pixel [''seed.png'']))) \<and>
   consistent two_cells \<and> reaches reversing two_cells after_one \<and>
   inside (canvas after_one) 1 0 \<and> ch0 (GetPixel (canvas after_one) 1 0) \<noteq> 0 \<and>
   GetPixel (canvas after_one) 1 0 \<noteq> sentinel \<and>
   inside (canvas after_one) 0 0 \<and> ch0 (GetPixel (canvas after_one) 0 0) = 0 \<and>
   GetPixel (canvas after_one) 0 0 = sentinel"
proof -
  note painted = blue_channel_marks_unset [of "(0, 0)" "canvas after_one" "(1, 0)" "Color 8 8 8"
      "Color 4 2 2" reversing front_insertion_sort "\<lambda>seed. seed" one_pixel "[''seed.png'']"
      two_cells after_one 1 0 "(1, 0)" 9 9]
  note unset = blue_channel_marks_unset [of "(0, 0)" "canvas after_one" "(1, 0)" "Color 8 8 8"
      "Color 4 2 2" reversing front_insertion_sort "\<lambda>seed. seed" one_pixel "[''seed.png'']"
      two_cells after_one 0 0 "(1, 0)" 9 9]
  have m: "Color 4 2 2 \<in> set generated_colors"
  proof -
    have "Color 4 2 2 = mkColor 1 1 1"
      by (simp add: mkColor_def colMult_def)
    then show ?thesis
      by (subst generated_colors_iff) force
  qed
  then have ms: "Color 4 2 2 \<in> set (colors (start reversing front_insertion_sort (\<lambda>seed. seed)
       (Init one_pixel [''seed.png''])))"
    using mset_eq_setD [OF start_colors_mset [OF permuting_reversing sorts_by_front_insertion_sort]]
    by blast
  have i1: "inside (canvas after_one) 1 0" and i0: "inside (canvas after_one) 0 0"
    by (simp_all add: after_one_def inside_def blank_def paint_def)
  have b1: "ch0 (GetPixel (canvas after_one) 1 0) \<noteq> 0"
    and b0: "ch0 (GetPixel (canvas after_one) 0 0) = 0"
    by (simp_all add: after_one_def GetPixel_def paint_def blank_def sentinel_def
        invalidColor_def)
  have free: "(0, 0) \<in> GetFreeNeighbours (canvas after_one) (1, 0)"
    using painted i0 b0 by (simp add: chebyshev_def spread_def)
  have four: "4 \<le> uint (ch0 (Color 4 2 2))"
    using painted m by blast
  have n1: "GetPixel (canvas after_one) 1 0 \<noteq> sentinel"
    using painted consistent_two_cells reaches_after_one i1 b1 by blast
  have s0: "GetPixel (canvas after_one) 0 0 = sentinel"
    using unset consistent_two_cells reaches_after_one i0 b0 by blast
  from free m four permuting_reversing sorts_by_front_insertion_sort ms consistent_two_cells
    reaches_after_one i1 b1 n1 i0 b0 s0
  show ?thesis
    by (intro conjI)
qed

subsection \<open>Determinism\<close>










end
